theory Spec2Isabelle
  imports Main "HOL-Library.Word"
begin

section \<open>Frame encoder: the worker's buffer set and \<open>dump\<close>\<close>

text \<open>
  The worker function \<open>pcm_s16leEncoder\<close> keeps one variable, \<open>buffers\<close>, an array of
  \<open>Uint8Array\<close>s.  A \<open>Uint8Array\<close> is a list of bytes, the buffer set a list of those.
  \<open>dump\<close> is embedded loop by loop, with the indices of the source.  Two operations of
  the source can throw: reading \<open>buffer.length\<close> of an element beyond the end of
  \<open>buffers\<close> (a \<open>TypeError\<close> on \<open>undefined\<close>) and \<open>array.set\<close> beyond the end
  of the target (a \<open>RangeError\<close>).  Both are branches of the model, with value \<open>None\<close>.
\<close>

type_synonym byte = "8 word"

type_synonym Uint8Array = "byte list"

record encoder =
  buffers :: "Uint8Array list"

text \<open>\<open>array.set(buffer, offset)\<close>: copies \<open>buffer\<close> into \<open>array\<close> from index \<open>offset\<close>;
  a \<open>RangeError\<close> when it does not fit.\<close>

definition typed_array_set :: "Uint8Array \<Rightarrow> Uint8Array \<Rightarrow> nat \<Rightarrow> Uint8Array option" where
  "typed_array_set array buffer offset =
     (if offset + length buffer \<le> length array
      then Some (take offset array @ buffer @ drop (offset + length buffer) array)
      else None)"

text \<open>The inner \<open>while\<close> of \<open>dump\<close>: from \<open>numBuffers\<close> and \<open>length\<close> (here \<open>len\<close>), count
  the buffers of the chunk that starts at \<open>buffersPos\<close>.  The index read is guarded by the
  loop condition.\<close>

function dump_scan :: "Uint8Array list \<Rightarrow> int \<Rightarrow> nat \<Rightarrow> nat \<Rightarrow> nat \<Rightarrow> nat \<times> nat" where
  "dump_scan bufs maxOutputSize buffersPos numBuffers len =
     (if buffersPos + numBuffers < length bufs then
        (if numBuffers > 0 \<and>
            int (len + length (bufs ! (buffersPos + numBuffers))) > maxOutputSize
         then (numBuffers, len)
         else dump_scan bufs maxOutputSize buffersPos (numBuffers + 1)
                (len + length (bufs ! (buffersPos + numBuffers))))
      else (numBuffers, len))"
  by pat_completeness auto
termination
  by (relation "measure (\<lambda>(bufs, m, p, n, l). length bufs - (p + n))") auto

declare dump_scan.simps [simp del]

text \<open>The \<open>for\<close> loop of \<open>dump\<close>: copy \<open>numBuffers\<close> buffers from \<open>buffersPos\<close> into
  \<open>array\<close>, one after the other.\<close>

function dump_fill ::
  "Uint8Array list \<Rightarrow> nat \<Rightarrow> nat \<Rightarrow> nat \<Rightarrow> nat \<Rightarrow> Uint8Array \<Rightarrow> Uint8Array option" where
  "dump_fill bufs buffersPos numBuffers i offset array =
     (if i < numBuffers then
        (if buffersPos + i < length bufs then
           (case typed_array_set array (bufs ! (buffersPos + i)) offset of
              None \<Rightarrow> None
            | Some array' \<Rightarrow>
                dump_fill bufs buffersPos numBuffers (i + 1)
                  (offset + length (bufs ! (buffersPos + i))) array')
         else None)
      else Some array)"
  by pat_completeness auto
termination
  by (relation "measure (\<lambda>(bufs, p, n, i, off, a). n - i)") auto

declare dump_fill.simps [simp del]

lemma dump_scan_bounds:
  "buffersPos + numBuffers \<le> length bufs \<Longrightarrow>
   dump_scan bufs m buffersPos numBuffers len = (n, l) \<Longrightarrow>
   numBuffers \<le> n \<and> buffersPos + n \<le> length bufs \<and>
   (numBuffers = 0 \<and> buffersPos < length bufs \<longrightarrow> 0 < n)"
proof (induction bufs m buffersPos numBuffers len rule: dump_scan.induct)
  case (1 bufs maxOutputSize buffersPos numBuffers len)
  show ?case
  proof (cases "buffersPos + numBuffers < length bufs")
    case False
    with "1.prems" show ?thesis
      by (auto simp add: dump_scan.simps [of bufs maxOutputSize buffersPos numBuffers len])
  next
    case inside: True
    show ?thesis
    proof (cases "numBuffers > 0 \<and>
            int (len + length (bufs ! (buffersPos + numBuffers))) > maxOutputSize")
      case True
      with inside "1.prems" show ?thesis
        by (simp add: dump_scan.simps [of bufs maxOutputSize buffersPos numBuffers len])
    next
      case False
      with inside "1.prems"
      have rec: "dump_scan bufs maxOutputSize buffersPos (numBuffers + 1)
                (len + length (bufs ! (buffersPos + numBuffers))) = (n, l)"
        by (simp add: dump_scan.simps [of bufs maxOutputSize buffersPos numBuffers len] split: if_splits)
      from inside have "buffersPos + (numBuffers + 1) \<le> length bufs" by simp
      from "1.IH" [OF inside False this rec] show ?thesis by simp
    qed
  qed
qed

lemma dump_scan_progress:
  "buffersPos < length bufs \<Longrightarrow> dump_scan bufs m buffersPos 0 0 = (n, l) \<Longrightarrow>
   0 < n \<and> buffersPos + n \<le> length bufs"
  using dump_scan_bounds [of buffersPos 0 bufs m 0 n l] by simp

text \<open>The outer \<open>while\<close> of \<open>dump\<close>.  It ends because every round takes at least one
  buffer.\<close>

function dump_loop ::
  "Uint8Array list \<Rightarrow> int \<Rightarrow> nat \<Rightarrow> Uint8Array list \<Rightarrow> Uint8Array list option" where
  "dump_loop bufs maxOutputSize buffersPos outputBuffers =
     (if buffersPos < length bufs then
        (case dump_scan bufs maxOutputSize buffersPos 0 0 of
           (numBuffers, len) \<Rightarrow>
             (case dump_fill bufs buffersPos numBuffers 0 0 (replicate len 0) of
                None \<Rightarrow> None
              | Some array \<Rightarrow>
                  dump_loop bufs maxOutputSize (buffersPos + numBuffers)
                    (outputBuffers @ [array])))
      else Some outputBuffers)"
  by pat_completeness auto
termination
proof (relation "measure (\<lambda>(bufs, m, p, out). length bufs - p)", goal_cases)
  case 1
  show ?case by simp
next
  case (2 bufs maxOutputSize buffersPos outputBuffers numBuffers len array)
  from 2(2) have "dump_scan bufs maxOutputSize buffersPos 0 0 = (numBuffers, len)" by simp
  from dump_scan_progress [OF 2(1) this] have "0 < numBuffers" and "buffersPos + numBuffers \<le> length bufs"
    by simp_all
  then have "length bufs - (buffersPos + numBuffers) < length bufs - buffersPos" by arith
  then show ?case by simp
qed

declare dump_loop.simps [simp del]

text \<open>\<open>dump(maxOutputSize)\<close>: the chunks, and the encoder with \<open>buffers = []\<close>.\<close>

definition dump :: "int \<Rightarrow> encoder \<Rightarrow> (Uint8Array list \<times> encoder) option" where
  "dump maxOutputSize e =
     (case dump_loop (buffers e) maxOutputSize 0 [] of
        None \<Rightarrow> None
      | Some outputBuffers \<Rightarrow> Some (outputBuffers, e\<lparr>buffers := []\<rparr>))"

text \<open>The buffers each round of the outer loop takes, as a list of groups: the
  round at \<open>buffersPos\<close> takes the \<open>numBuffers\<close> buffers that \<open>dump_scan\<close> counts.  The
  chunk the round emits is the concatenation of its group (lemma \<open>dump_loop_groups\<close>).\<close>

function dump_groups :: "Uint8Array list \<Rightarrow> int \<Rightarrow> nat \<Rightarrow> Uint8Array list list" where
  "dump_groups bufs maxOutputSize buffersPos =
     (if buffersPos < length bufs then
        (case dump_scan bufs maxOutputSize buffersPos 0 0 of
           (numBuffers, len) \<Rightarrow>
             take numBuffers (drop buffersPos bufs)
               # dump_groups bufs maxOutputSize (buffersPos + numBuffers))
      else [])"
  by pat_completeness auto
termination
proof (relation "measure (\<lambda>(bufs, m, p). length bufs - p)", goal_cases)
  case 1
  show ?case by simp
next
  case (2 bufs maxOutputSize buffersPos numBuffers len)
  from 2(2) have "dump_scan bufs maxOutputSize buffersPos 0 0 = (numBuffers, len)" by simp
  from dump_scan_progress [OF 2(1) this] have "0 < numBuffers" and "buffersPos + numBuffers \<le> length bufs"
    by simp_all
  then have "length bufs - (buffersPos + numBuffers) < length bufs - buffersPos" by arith
  then show ?case by simp
qed

text \<open>Greedy packing: a chunk is closed only when the next buffer would take it beyond
  the limit.\<close>

fun greedy :: "int \<Rightarrow> Uint8Array list list \<Rightarrow> bool" where
  "greedy N (g # g' # gs) =
     (g' \<noteq> [] \<and> N < int (length (concat g) + length (hd g')) \<and> greedy N (g' # gs))"
| "greedy N gs = True"

declare dump_groups.simps [simp del]


definition chunk_groups :: "int \<Rightarrow> encoder \<Rightarrow> Uint8Array list list" where
  "chunk_groups N e = dump_groups (buffers e) N 0"


section \<open>Results and the merge of a result frame\<close>

text \<open>
  A result frame of the server, after \<open>JSON.parse\<close>, has the fields \<open>fw\<close>, \<open>nfw\<close>, \<open>fpt\<close> and
  \<open>tpt\<close>; its words have the fields \<open>t\<close>, \<open>s\<close> and \<open>d\<close> (here \<open>jw_t\<close>, \<open>jw_s\<close>, \<open>jw_d\<close>).
  The words of a result have the fields \<open>text\<close> (here \<open>word_text\<close>), \<open>start_ms\<close>,
  \<open>duration_ms\<close> and \<open>is_final\<close>.  Times are integers.
\<close>

record json_word =
  jw_t :: string
  jw_s :: int
  jw_d :: int

record response =
  fw :: "json_word list"
  nfw :: "json_word list"
  fpt :: int
  tpt :: int

record result_word =
  word_text :: string
  start_ms :: int
  duration_ms :: int
  is_final :: bool

record Result =
  words :: "result_word list"
  final_proc_time_ms :: int
  total_proc_time_ms :: int

definition wordFromJson :: "json_word \<Rightarrow> bool \<Rightarrow> result_word" where
  "wordFromJson jsWord isFinal =
     \<lparr>word_text = jw_t jsWord, start_ms = jw_s jsWord, duration_ms = jw_d jsWord,
      is_final = isFinal\<rparr>"

text \<open>\<open>words.push(x)\<close>.\<close>

definition push :: "'a list \<Rightarrow> 'a \<Rightarrow> 'a list" where
  "push xs x = xs @ [x]"

text \<open>\<open>resultFromResponse\<close>: the two \<open>forEach\<close> loops push onto \<open>words\<close>, which starts
  empty.\<close>

definition resultFromResponse :: "response \<Rightarrow> Result" where
  "resultFromResponse resp =
     \<lparr>words =
        foldl (\<lambda>ws jsWord. push ws (wordFromJson jsWord False))
          (foldl (\<lambda>ws jsWord. push ws (wordFromJson jsWord True)) [] (fw resp))
          (nfw resp),
      final_proc_time_ms = fpt resp,
      total_proc_time_ms = tpt resp\<rparr>"

definition initialResult :: Result where
  "initialResult = \<lparr>words = [], final_proc_time_ms = 0, total_proc_time_ms = 0\<rparr>"

text \<open>The \<open>while\<close> loop of \<open>_updateResult\<close>: pop while the last word is not final.\<close>

function pop_nonfinal :: "result_word list \<Rightarrow> result_word list" where
  "pop_nonfinal ws =
     (if length ws > 0 \<and> \<not> is_final (ws ! (length ws - 1))
      then pop_nonfinal (butlast ws) else ws)"
  by pat_completeness auto
termination
  by (relation "measure length") auto

declare pop_nonfinal.simps [simp del]

text \<open>\<open>_updateResult(newResult)\<close>, on the accumulated result.\<close>

definition updateResult :: "Result \<Rightarrow> Result \<Rightarrow> Result" where
  "updateResult res newResult =
     res\<lparr>words := foldl push (pop_nonfinal (words res)) (words newResult),
         final_proc_time_ms := final_proc_time_ms newResult,
         total_proc_time_ms := total_proc_time_ms newResult\<rparr>"

text \<open>The accumulated result after a sequence of result frames, from \<open>initialResult\<close>.\<close>

definition merged :: "response list \<Rightarrow> Result" where
  "merged rs = foldl updateResult initialResult (map resultFromResponse rs)"

section \<open>The close reason and its status pattern\<close>

text \<open>
  \<open>StatusMessageRegex\<close> is \<^verbatim>\<open>^<([a-zA-Z0-9_\-]+)> *(([^ ]|$).*)$\<close>, with no flags.  A
  reason matches when it is \<^verbatim>\<open><\<close>, a non-empty run of token characters, \<^verbatim>\<open>>\<close>, spaces, and
  then either nothing or a character other than a space followed by characters none of
  which is a line terminator (\<open>.\<close> matches none, and \<open>$\<close> is the end of the input).
  The decomposition is unique: \<^verbatim>\<open>>\<close> is no token character, so group 1 is the whole run
  after \<^verbatim>\<open><\<close>; and group 2 starts with no space, so the spaces before it are all the
  spaces there are.  \<open>StatusMessageRegex_exec\<close> returns groups 1 and 2, or \<open>None\<close> for
  \<open>null\<close>.  Strings are lists of 8-bit characters, so of the line terminators of
  JavaScript only LF and CR occur.
\<close>

definition isTokenChar :: "char \<Rightarrow> bool" where
  "isTokenChar c =
     (let n = (of_char c :: nat) in
        (97 \<le> n \<and> n \<le> 122) \<or> (65 \<le> n \<and> n \<le> 90) \<or> (48 \<le> n \<and> n \<le> 57)
        \<or> c = CHR ''_'' \<or> c = CHR ''-'')"

definition isLineTerminator :: "char \<Rightarrow> bool" where
  "isLineTerminator c = (c = CHR 0x0A \<or> c = CHR 0x0D)"

definition StatusMessageRegex_exec :: "string \<Rightarrow> (string \<times> string) option" where
  "StatusMessageRegex_exec reason =
     (case reason of
        [] \<Rightarrow> None
      | c # afterOpen \<Rightarrow>
          if c \<noteq> CHR ''<'' then None
          else
            let token = takeWhile isTokenChar afterOpen;
                afterToken = dropWhile isTokenChar afterOpen
            in if token = [] then None
               else
                 (case afterToken of
                    [] \<Rightarrow> None
                  | d # afterClose \<Rightarrow>
                      if d \<noteq> CHR ''>'' then None
                      else
                        let message = dropWhile (\<lambda>x. x = CHR '' '') afterClose
                        in (case message of
                              [] \<Rightarrow> Some (token, [])
                            | m # ms \<Rightarrow>
                                if list_ex isLineTerminator ms then None
                                else Some (token, message))))"

text \<open>Group 2 of the pattern, taken apart from the rest for the lemmas on
  \<open>StatusMessageRegex_exec\<close>: what remains after the spaces is empty, or has no line
  terminator after its first character.\<close>

definition message_part :: "string \<Rightarrow> string \<Rightarrow> (string \<times> string) option" where
  "message_part tk ms =
     (case ms of
        [] \<Rightarrow> Some (tk, [])
      | m # r \<Rightarrow> if list_ex isLineTerminator r then None else Some (tk, ms))"

text \<open>The close code in a string concatenation: the decimal digits of a number that
  is a non-negative integer.\<close>

definition decimal_digit :: "nat \<Rightarrow> char" where
  "decimal_digit d = ''0123456789'' ! d"

function Number_toString :: "nat \<Rightarrow> string" where
  "Number_toString code =
     (if code div 10 = 0 then [decimal_digit code]
      else Number_toString (code div 10) @ [decimal_digit (code mod 10)])"
  by pat_completeness auto
termination
  by (relation "measure id") auto

declare Number_toString.simps [simp del]

section \<open>The session: class \<open>RecordTranscribe\<close>\<close>

datatype State =
    Init | RequestingMedia | OpeningWebSocket | Running | Finishing | FinishingEarly
  | Finished | Error | Canceled

definition ToUserStateMap :: "State \<Rightarrow> string" where
  "ToUserStateMap st =
     (case st of
        Init \<Rightarrow> ''Init''
      | RequestingMedia \<Rightarrow> ''Starting''
      | OpeningWebSocket \<Rightarrow> ''Starting''
      | Running \<Rightarrow> ''Running''
      | Finishing \<Rightarrow> ''Finishing''
      | FinishingEarly \<Rightarrow> ''Finishing''
      | Finished \<Rightarrow> ''Finished''
      | Error \<Rightarrow> ''Error''
      | Canceled \<Rightarrow> ''Canceled'')"

definition isInactiveState :: "State \<Rightarrow> bool" where
  "isInactiveState st = (st = Init \<or> st = Finished \<or> st = Error \<or> st = Canceled)"

definition isWebSocketState :: "State \<Rightarrow> bool" where
  "isWebSocketState st = (st = OpeningWebSocket \<or> st = Running \<or> st = Finishing)"

text \<open>
  What a method does to the world outside the object is recorded in a log, in the order
  of the source: calls on the media stream, the recorder and the socket, the deferred
  task of \<open>stop\<close>, and the calls of the user's callbacks.  Every handler calls a callback
  as its last statement, so what a callback does to the session is the next event.
\<close>

datatype frame = ConfigFrame | AudioFrame Uint8Array | EndOfAudio

datatype effect =
    GetUserMedia
  | StaleTracksStop
  | NewMediaRecorder
  | NewWebSocket
  | RecorderStart
  | RecorderStop
  | TerminateWorker
  | TracksStop
  | WsSend frame
  | WsClose
  | Deferred
  | OnStarted
  | OnPartialResult Result
  | OnFinished
  | OnError string string

fun isCallback :: "effect \<Rightarrow> bool" where
  "isCallback OnStarted = True"
| "isCallback (OnPartialResult r) = True"
| "isCallback OnFinished = True"
| "isCallback (OnError status message) = True"
| "isCallback e = False"

fun isTerminalCallback :: "effect \<Rightarrow> bool" where
  "isTerminalCallback OnFinished = True"
| "isTerminalCallback (OnError status message) = True"
| "isTerminalCallback e = False"

definition callbacks :: "effect list \<Rightarrow> effect list" where
  "callbacks es = filter isCallback es"

text \<open>The \<open>state\<close> of the polyfill's \<open>MediaRecorder\<close>; the polyfill never sets \<open>paused\<close>.\<close>

datatype recorder_state = inactive | recording

text \<open>
  The fields of the object.  A callback field is \<open>True\<close> when a function is registered
  (not \<open>null\<close>); \<open>mediaStream\<close> and \<open>webSocket\<close> are \<open>True\<close> when not \<open>null\<close>;
  \<open>mediaRecorder\<close> is \<open>None\<close> for \<open>null\<close> and else the recorder's state.
  \<open>recordTranscribeActive\<close> is the variable of the module.  The fields of the
  configuration frame (API key, non-final flag, speech context, URI) are left out.
\<close>

record RecordTranscribe =
  state :: State
  onStarted :: bool
  onPartialResult :: bool
  onFinished :: bool
  onError :: bool
  mediaStream :: bool
  mediaRecorder :: "recorder_state option"
  webSocket :: bool
  result :: Result
  recordTranscribeActive :: bool
  effects :: "effect list"

text \<open>A call returns or throws; what it did before it threw stays done.\<close>

datatype completion = Returned | Threw string

definition logEffects :: "effect list \<Rightarrow> RecordTranscribe \<Rightarrow> RecordTranscribe" where
  "logEffects es s = s\<lparr>effects := effects s @ es\<rparr>"

definition constructor :: RecordTranscribe where
  "constructor =
     \<lparr>state = Init, onStarted = False, onPartialResult = False, onFinished = False,
      onError = False, mediaStream = False, mediaRecorder = None, webSocket = False,
      result = initialResult, recordTranscribeActive = False, effects = []\<rparr>"

definition setOnStarted :: "bool \<Rightarrow> RecordTranscribe \<Rightarrow> completion \<times> RecordTranscribe" where
  "setOnStarted f s =
     (if state s \<noteq> Init then (Threw ''setOnStarted() may only be called before start()'', s)
      else (Returned, s\<lparr>onStarted := f\<rparr>))"

definition setOnPartialResult :: "bool \<Rightarrow> RecordTranscribe \<Rightarrow> completion \<times> RecordTranscribe" where
  "setOnPartialResult f s =
     (if state s \<noteq> Init
      then (Threw ''setOnPartialResult() may only be called before start()'', s)
      else (Returned, s\<lparr>onPartialResult := f\<rparr>))"

definition setOnFinished :: "bool \<Rightarrow> RecordTranscribe \<Rightarrow> completion \<times> RecordTranscribe" where
  "setOnFinished f s =
     (if state s \<noteq> Init then (Threw ''setOnFinished() may only be called before start()'', s)
      else (Returned, s\<lparr>onFinished := f\<rparr>))"

definition setOnError :: "bool \<Rightarrow> RecordTranscribe \<Rightarrow> completion \<times> RecordTranscribe" where
  "setOnError f s =
     (if state s \<noteq> Init then (Threw ''setOnError() may only be called before start()'', s)
      else (Returned, s\<lparr>onError := f\<rparr>))"

definition start :: "RecordTranscribe \<Rightarrow> completion \<times> RecordTranscribe" where
  "start s =
     (if state s \<noteq> Init then (Threw ''start() may only be called once'', s)
      else if recordTranscribeActive s
      then (Threw ''only one RecordTranscribe may be active at a time'', s)
      else (Returned,
            (logEffects [GetUserMedia] s)\<lparr>recordTranscribeActive := True, state := RequestingMedia\<rparr>))"

definition closeWebSocket :: "RecordTranscribe \<Rightarrow> RecordTranscribe" where
  "closeWebSocket s =
     (if webSocket s then (logEffects [WsClose] s)\<lparr>webSocket := False\<rparr> else s)"

definition closeMedia :: "RecordTranscribe \<Rightarrow> RecordTranscribe" where
  "closeMedia s =
     (let s1 = (case mediaRecorder s of
                  None \<Rightarrow> s
                | Some r \<Rightarrow>
                    (logEffects ((if r \<noteq> inactive then [RecorderStop] else []) @ [TerminateWorker]) s)
                      \<lparr>mediaRecorder := None\<rparr>)
      in if mediaStream s1 then (logEffects [TracksStop] s1)\<lparr>mediaStream := False\<rparr> else s1)"

definition closeResources :: "RecordTranscribe \<Rightarrow> RecordTranscribe" where
  "closeResources s = closeMedia (closeWebSocket s)"

definition goRunningToFinishing :: "RecordTranscribe \<Rightarrow> completion \<times> RecordTranscribe" where
  "goRunningToFinishing s =
     (let s1 = closeMedia s
      in if webSocket s1 then (Returned, (logEffects [WsSend EndOfAudio] s1)\<lparr>state := Finishing\<rparr>)
         else (Threw ''TypeError'', s1))"

definition handleError :: "string \<Rightarrow> string \<Rightarrow> RecordTranscribe \<Rightarrow> RecordTranscribe" where
  "handleError status message s =
     (let s1 = (closeResources s)\<lparr>state := Error, recordTranscribeActive := False\<rparr>
      in if onError s1 then logEffects [OnError status message] s1 else s1)"

definition handleFinished :: "RecordTranscribe \<Rightarrow> RecordTranscribe" where
  "handleFinished s =
     (let s1 = (closeResources s)\<lparr>state := Finished, recordTranscribeActive := False\<rparr>
      in if onFinished s1 then logEffects [OnFinished] s1 else s1)"

definition stop :: "RecordTranscribe \<Rightarrow> completion \<times> RecordTranscribe" where
  "stop s =
     (if state s = RequestingMedia \<or> state s = OpeningWebSocket
      then (Returned, (logEffects [Deferred] (closeResources s))\<lparr>state := FinishingEarly\<rparr>)
      else if state s = Running then goRunningToFinishing s
      else (Returned, s))"

definition cancel :: "RecordTranscribe \<Rightarrow> completion \<times> RecordTranscribe" where
  "cancel s =
     (if \<not> isInactiveState (state s)
      then (Returned, (closeResources s)\<lparr>state := Canceled, recordTranscribeActive := False\<rparr>)
      else (Returned, s))"

definition getResult :: "RecordTranscribe \<Rightarrow> Result" where
  "getResult s = result s"

definition getState :: "RecordTranscribe \<Rightarrow> string" where
  "getState s = ToUserStateMap (state s)"

definition onGetUserMediaSuccess :: "RecordTranscribe \<Rightarrow> completion \<times> RecordTranscribe" where
  "onGetUserMediaSuccess s =
     (if state s \<noteq> RequestingMedia then (Returned, logEffects [StaleTracksStop] s)
      else (Returned,
            (logEffects [NewMediaRecorder, NewWebSocket] s)
              \<lparr>mediaStream := True, mediaRecorder := Some inactive, webSocket := True,
               state := OpeningWebSocket\<rparr>))"

definition onGetUserMediaError :: "RecordTranscribe \<Rightarrow> completion \<times> RecordTranscribe" where
  "onGetUserMediaError s =
     (if state s \<noteq> RequestingMedia then (Returned, s)
      else (Returned, handleError ''get_user_media_failed'' ''Failed to get user media.'' s))"

definition onMediaRecorderStop :: "RecordTranscribe \<Rightarrow> completion \<times> RecordTranscribe" where
  "onMediaRecorderStop s =
     (if state s \<noteq> Running then (Returned, s) else goRunningToFinishing s)"

definition onMediaRecorderData :: "Uint8Array \<Rightarrow> RecordTranscribe \<Rightarrow> completion \<times> RecordTranscribe" where
  "onMediaRecorderData data s =
     (if state s \<noteq> Running then (Returned, s)
      else if webSocket s then (Returned, logEffects [WsSend (AudioFrame data)] s)
      else (Threw ''TypeError'', s))"

text \<open>\<open>_onWebSocketOpen\<close>.  The polyfill's \<open>start\<close> does nothing to a recorder that is not
  \<open>inactive\<close> (it dispatches an \<open>error\<close> event, to which the session does not listen).\<close>

definition onWebSocketOpen :: "RecordTranscribe \<Rightarrow> completion \<times> RecordTranscribe" where
  "onWebSocketOpen s =
     (if state s \<noteq> OpeningWebSocket then (Returned, s)
      else
        (case mediaRecorder s of
           None \<Rightarrow> (Threw ''TypeError'', s)
         | Some r \<Rightarrow>
             let s1 = (if r \<noteq> inactive then s
                       else (logEffects [RecorderStart] s)\<lparr>mediaRecorder := Some recording\<rparr>)
             in if \<not> webSocket s1 then (Threw ''TypeError'', s1)
                else
                  let s2 = (logEffects [WsSend ConfigFrame] s1)\<lparr>state := Running\<rparr>
                  in (Returned, if onStarted s2 then logEffects [OnStarted] s2 else s2)))"

definition onWebSocketClose :: "nat \<Rightarrow> string \<Rightarrow> RecordTranscribe \<Rightarrow> completion \<times> RecordTranscribe" where
  "onWebSocketClose code reason s =
     (if \<not> isWebSocketState (state s) then (Returned, s)
      else if code = 1000 then
        (case StatusMessageRegex_exec reason of
           Some (status, message) \<Rightarrow>
             if status = ''eof'' then
               (if state s = Finishing then (Returned, handleFinished s)
                else (Returned, handleError ''other_asr_error'' ''Unexpected EOF received.'' s))
             else (Returned, handleError status message s)
         | None \<Rightarrow> (Returned, handleError ''other_asr_error'' reason s))
      else (Returned,
            handleError ''websocket_closed''
              (''WebSocket closed: code='' @ Number_toString code @ '', reason='' @ reason) s))"

definition onWebSocketError :: "RecordTranscribe \<Rightarrow> completion \<times> RecordTranscribe" where
  "onWebSocketError s =
     (if \<not> isWebSocketState (state s) then (Returned, s)
      else (Returned, handleError ''websocket_error'' ''WebSocket error occurred.'' s))"

text \<open>
  The data of a message event: text that \<open>JSON.parse\<close> rejects (a \<open>SyntaxError\<close>); text
  that parses to a value on which \<open>resultFromResponse\<close> throws, because \<open>fw\<close> or \<open>nfw\<close> is no
  array or a word is \<open>null\<close> (a \<open>TypeError\<close>); or a result frame.  Both throws come
  before \<open>_updateResult\<close>, so before anything is written.
\<close>

datatype message_data = Unparsable | Malformed | Frame response

text \<open>\<open>_onWebSocketMessage\<close>.\<close>

definition onWebSocketMessage :: "message_data \<Rightarrow> RecordTranscribe \<Rightarrow> completion \<times> RecordTranscribe" where
  "onWebSocketMessage data s =
     (if state s \<noteq> Running \<and> state s \<noteq> Finishing then (Returned, s)
      else
        (case data of
           Unparsable \<Rightarrow> (Threw ''SyntaxError'', s)
         | Malformed \<Rightarrow> (Threw ''TypeError'', s)
         | Frame resp \<Rightarrow>
             let res = resultFromResponse resp;
                 s1 = s\<lparr>result := updateResult (result s) res\<rparr>
             in (Returned, if onPartialResult s1 then logEffects [OnPartialResult res] s1 else s1)))"

definition completeFinishingEarly :: "RecordTranscribe \<Rightarrow> completion \<times> RecordTranscribe" where
  "completeFinishingEarly s =
     (if state s \<noteq> FinishingEarly then (Returned, s) else (Returned, handleFinished s))"

text \<open>
  The events of a session: the calls of the public methods, and the callbacks of the
  media request, the recorder, the socket and the deferred task.  An event may come in
  any state; an exception thrown in a handler is lost and the session goes on.
\<close>

datatype event =
    SetOnStarted bool
  | SetOnPartialResult bool
  | SetOnFinished bool
  | SetOnError bool
  | Start
  | Stop
  | Cancel
  | GetUserMediaSuccess
  | GetUserMediaError
  | MediaRecorderStop
  | MediaRecorderData Uint8Array
  | WebSocketOpen
  | WebSocketClose nat string
  | WebSocketError
  | WebSocketMessage message_data
  | CompleteFinishingEarly

fun step :: "event \<Rightarrow> RecordTranscribe \<Rightarrow> completion \<times> RecordTranscribe" where
  "step (SetOnStarted f) s = setOnStarted f s"
| "step (SetOnPartialResult f) s = setOnPartialResult f s"
| "step (SetOnFinished f) s = setOnFinished f s"
| "step (SetOnError f) s = setOnError f s"
| "step Start s = start s"
| "step Stop s = stop s"
| "step Cancel s = cancel s"
| "step GetUserMediaSuccess s = onGetUserMediaSuccess s"
| "step GetUserMediaError s = onGetUserMediaError s"
| "step MediaRecorderStop s = onMediaRecorderStop s"
| "step (MediaRecorderData data) s = onMediaRecorderData data s"
| "step WebSocketOpen s = onWebSocketOpen s"
| "step (WebSocketClose code reason) s = onWebSocketClose code reason s"
| "step WebSocketError s = onWebSocketError s"
| "step (WebSocketMessage data) s = onWebSocketMessage data s"
| "step CompleteFinishingEarly s = completeFinishingEarly s"

fun run :: "event list \<Rightarrow> RecordTranscribe \<Rightarrow> RecordTranscribe" where
  "run [] s = s"
| "run (ev # evs) s = run evs (snd (step ev s))"

text \<open>
  The terminal states are \<open>Finished\<close>, \<open>Error\<close> and \<open>Canceled\<close>; the inactive states of
  \<open>isInactiveState\<close> are these and \<open>Init\<close>.
\<close>

definition isTerminalState :: "State \<Rightarrow> bool" where
  "isTerminalState st = (st = Finished \<or> st = Error \<or> st = Canceled)"


text \<open>Sessions of a recording, each reached from \<open>constructor\<close> by the events named:
  with \<open>onFinished\<close> and \<open>onError\<close> registered; after \<open>start()\<close>; after the media grant and
  the opening of the socket; after \<open>stop()\<close>; after the close of the socket with reason
  \<^verbatim>\<open><eof>\<close>.\<close>

definition init_session :: RecordTranscribe where
  "init_session = run [SetOnFinished True, SetOnError True] constructor"

definition requesting_session :: RecordTranscribe where
  "requesting_session = run [Start] init_session"

definition running_session :: RecordTranscribe where
  "running_session = run [GetUserMediaSuccess, WebSocketOpen] requesting_session"

definition finishing_session :: RecordTranscribe where
  "finishing_session = run [Stop] running_session"

definition finished_session :: RecordTranscribe where
  "finished_session = run [WebSocketClose 1000 ''<eof>''] finishing_session"

text \<open>The invariant of the terminal callbacks: none was called before \<open>Finished\<close> or
  \<open>Error\<close>, and at most one in these.\<close>

definition tinv :: "RecordTranscribe \<Rightarrow> bool" where
  "tinv s =
     (if state s = Finished \<or> state s = Error
      then length (filter isTerminalCallback (effects s)) \<le> 1
      else filter isTerminalCallback (effects s) = [])"

text \<open>What the handlers dereference without a test: the socket in the states of
  \<open>isWebSocketState\<close>, the recorder in \<open>OpeningWebSocket\<close>.\<close>

definition resources_held :: "RecordTranscribe \<Rightarrow> bool" where
  "resources_held s =
     ((isWebSocketState (state s) \<longrightarrow> webSocket s) \<and>
      (state s = OpeningWebSocket \<longrightarrow> mediaRecorder s \<noteq> None))"

section \<open>The chunks of \<open>dump\<close>\<close>

lemma typed_array_set_fits:
  "offset + length buffer \<le> length array \<Longrightarrow>
   typed_array_set array buffer offset =
     Some (take offset array @ buffer @ drop (offset + length buffer) array)"
  by (simp add: typed_array_set_def)

lemma dump_fill_concat:
  "buffersPos + numBuffers \<le> length bufs \<Longrightarrow> i \<le> numBuffers \<Longrightarrow>
   offset + length (concat (take (numBuffers - i) (drop (buffersPos + i) bufs))) = length array \<Longrightarrow>
   dump_fill bufs buffersPos numBuffers i offset array =
     Some (take offset array @ concat (take (numBuffers - i) (drop (buffersPos + i) bufs)))"
proof (induction bufs buffersPos numBuffers i offset array rule: dump_fill.induct)
  case (1 bufs buffersPos numBuffers i offset array)
  show ?case
  proof (cases "i < numBuffers")
    case False
    with "1.prems" show ?thesis
      by (subst dump_fill.simps) simp
  next
    case True
    with "1.prems" have inb: "buffersPos + i < length bufs" by simp
    let ?b = "bufs ! (buffersPos + i)"
    have split: "take (numBuffers - i) (drop (buffersPos + i) bufs) =
        ?b # take (numBuffers - (i + 1)) (drop (buffersPos + (i + 1)) bufs)"
      using True inb
      by (metis Cons_nth_drop_Suc Suc_diff_Suc Suc_eq_plus1 add_Suc_right take_Suc_Cons)
    with "1.prems" have fits: "offset + length ?b \<le> length array" by simp
    let ?a = "take offset array @ ?b @ drop (offset + length ?b) array"
    have set: "typed_array_set array ?b offset = Some ?a"
      by (rule typed_array_set_fits [OF fits])
    have len: "offset + length ?b +
        length (concat (take (numBuffers - (i + 1)) (drop (buffersPos + (i + 1)) bufs))) = length ?a"
      using "1.prems" split fits by simp
    have "dump_fill bufs buffersPos numBuffers (i + 1) (offset + length ?b) ?a =
       Some (take (offset + length ?b) ?a @
          concat (take (numBuffers - (i + 1)) (drop (buffersPos + (i + 1)) bufs)))"
      using "1.IH" [OF True inb set _ _ len] "1.prems" True by simp
    moreover have "take (offset + length ?b) ?a = take offset array @ ?b"
      using fits by simp
    ultimately show ?thesis
      using True inb set split by (subst dump_fill.simps) simp
  qed
qed

lemma dump_scan_len:
  "buffersPos + numBuffers \<le> length bufs \<Longrightarrow>
   dump_scan bufs m buffersPos numBuffers len = (n, l) \<Longrightarrow>
   l = len + length (concat (take (n - numBuffers) (drop (buffersPos + numBuffers) bufs)))"
proof (induction bufs m buffersPos numBuffers len rule: dump_scan.induct)
  case (1 bufs maxOutputSize buffersPos numBuffers len)
  let ?b = "bufs ! (buffersPos + numBuffers)"
  show ?case
  proof (cases "buffersPos + numBuffers < length bufs \<and>
      \<not> (numBuffers > 0 \<and> int (len + length ?b) > maxOutputSize)")
    case False
    with "1.prems"(2) have "n = numBuffers \<and> l = len"
      by (subst (asm) dump_scan.simps) (auto split: if_splits)
    then show ?thesis by simp
  next
    case True
    with "1.prems"(2)
    have rec: "dump_scan bufs maxOutputSize buffersPos (numBuffers + 1) (len + length ?b) = (n, l)"
      by (subst (asm) dump_scan.simps) (auto split: if_splits)
    from True have le: "buffersPos + (numBuffers + 1) \<le> length bufs" by simp
    from dump_scan_bounds [OF le rec] have n: "numBuffers + 1 \<le> n" by simp
    from True have inside: "buffersPos + numBuffers < length bufs" by simp
    have split: "take (n - numBuffers) (drop (buffersPos + numBuffers) bufs) =
        ?b # take (n - (numBuffers + 1)) (drop (buffersPos + (numBuffers + 1)) bufs)"
      using n inside
      by (metis Cons_nth_drop_Suc Suc_diff_Suc Suc_eq_plus1 Suc_le_lessD add_Suc_right take_Suc_Cons)
    from "1.IH" [OF inside _ le rec] True split show ?thesis by auto
  qed
qed

lemma dump_scan_limit:
  "dump_scan bufs m buffersPos numBuffers len = (n, l) \<Longrightarrow>
   (1 < numBuffers \<longrightarrow> int len \<le> m) \<Longrightarrow> 1 < n \<Longrightarrow> int l \<le> m"
proof (induction bufs m buffersPos numBuffers len rule: dump_scan.induct)
  case (1 bufs maxOutputSize buffersPos numBuffers len)
  let ?b = "bufs ! (buffersPos + numBuffers)"
  show ?case
  proof (cases "buffersPos + numBuffers < length bufs \<and>
      \<not> (numBuffers > 0 \<and> int (len + length ?b) > maxOutputSize)")
    case False
    with "1.prems"(1) have "n = numBuffers \<and> l = len"
      by (subst (asm) dump_scan.simps) (auto split: if_splits)
    with "1.prems" show ?thesis by simp
  next
    case True
    with "1.prems"(1)
    have rec: "dump_scan bufs maxOutputSize buffersPos (numBuffers + 1) (len + length ?b) = (n, l)"
      by (subst (asm) dump_scan.simps) (auto split: if_splits)
    from True have inside: "buffersPos + numBuffers < length bufs" by simp
    from True have inv: "1 < numBuffers + 1 \<longrightarrow> int (len + length ?b) \<le> maxOutputSize"
      by auto
    from "1.IH" [OF inside _ rec inv "1.prems"(3)] True show ?thesis by auto
  qed
qed

lemma dump_scan_break:
  "dump_scan bufs m buffersPos numBuffers len = (n, l) \<Longrightarrow>
   buffersPos + n < length bufs \<Longrightarrow>
   0 < n \<and> m < int (l + length (bufs ! (buffersPos + n)))"
proof (induction bufs m buffersPos numBuffers len rule: dump_scan.induct)
  case (1 bufs maxOutputSize buffersPos numBuffers len)
  let ?b = "bufs ! (buffersPos + numBuffers)"
  show ?case
  proof (cases "buffersPos + numBuffers < length bufs \<and>
      \<not> (numBuffers > 0 \<and> int (len + length ?b) > maxOutputSize)")
    case False
    with "1.prems"(1) have "n = numBuffers \<and> l = len"
      by (subst (asm) dump_scan.simps) (auto split: if_splits)
    with "1.prems" False show ?thesis by auto
  next
    case True
    with "1.prems"(1)
    have rec: "dump_scan bufs maxOutputSize buffersPos (numBuffers + 1) (len + length ?b) = (n, l)"
      by (subst (asm) dump_scan.simps) (auto split: if_splits)
    from True have inside: "buffersPos + numBuffers < length bufs" by simp
    from "1.IH" [OF inside _ rec "1.prems"(2)] True show ?thesis by auto
  qed
qed

lemma dump_chunk:
  assumes "buffersPos < length bufs" and "dump_scan bufs m buffersPos 0 0 = (n, l)"
  shows "dump_fill bufs buffersPos n 0 0 (replicate l 0) =
           Some (concat (take n (drop buffersPos bufs)))"
proof -
  from dump_scan_progress [OF assms] have le: "buffersPos + n \<le> length bufs" by simp
  have "buffersPos + 0 \<le> length bufs" using assms(1) by simp
  from dump_scan_len [OF this assms(2)]
  have l: "length (concat (take n (drop buffersPos bufs))) = l" by simp
  have "dump_fill bufs buffersPos n 0 0 (replicate l 0) =
     Some (take 0 (replicate l 0) @ concat (take (n - 0) (drop (buffersPos + 0) bufs)))"
    by (rule dump_fill_concat) (use le l in simp_all)
  then show ?thesis by simp
qed

lemma dump_loop_groups:
  "dump_loop bufs m buffersPos out = Some (out @ map concat (dump_groups bufs m buffersPos))"
proof (induction bufs m buffersPos arbitrary: out rule: dump_groups.induct)
  case (1 bufs maxOutputSize buffersPos)
  show ?case
  proof (cases "buffersPos < length bufs")
    case False
    then show ?thesis
      by (subst dump_loop.simps, subst dump_groups.simps) simp
  next
    case True
    obtain n l where scan: "dump_scan bufs maxOutputSize buffersPos 0 0 = (n, l)"
      by (cases "dump_scan bufs maxOutputSize buffersPos 0 0")
    note fill = dump_chunk [OF True scan]
    have "dump_loop bufs maxOutputSize (buffersPos + n)
            (out @ [concat (take n (drop buffersPos bufs))]) =
          Some ((out @ [concat (take n (drop buffersPos bufs))]) @
            map concat (dump_groups bufs maxOutputSize (buffersPos + n)))"
      by (rule "1.IH" [OF True scan [symmetric]])
    with True scan fill show ?thesis
      by (subst dump_loop.simps, subst dump_groups.simps) simp
  qed
qed

lemma concat_dump_groups:
  "concat (dump_groups bufs m buffersPos) = drop buffersPos bufs"
proof (induction bufs m buffersPos rule: dump_groups.induct)
  case (1 bufs maxOutputSize buffersPos)
  show ?case
  proof (cases "buffersPos < length bufs")
    case False
    then show ?thesis by (subst dump_groups.simps) simp
  next
    case True
    obtain n l where scan: "dump_scan bufs maxOutputSize buffersPos 0 0 = (n, l)"
      by (cases "dump_scan bufs maxOutputSize buffersPos 0 0")
    have "concat (dump_groups bufs maxOutputSize (buffersPos + n)) = drop (buffersPos + n) bufs"
      by (rule "1.IH" [OF True scan [symmetric]])
    moreover have "take n (drop buffersPos bufs) @ drop (buffersPos + n) bufs = drop buffersPos bufs"
      using append_take_drop_id [of n "drop buffersPos bufs"] by (simp add: add.commute)
    ultimately show ?thesis
      using True scan by (subst dump_groups.simps) simp
  qed
qed

lemma dump_groups_chunks:
  "g \<in> set (dump_groups bufs m buffersPos) \<Longrightarrow>
   g \<noteq> [] \<and> (1 < length g \<longrightarrow> int (length (concat g)) \<le> m)"
proof (induction bufs m buffersPos rule: dump_groups.induct)
  case (1 bufs maxOutputSize buffersPos)
  show ?case
  proof (cases "buffersPos < length bufs")
    case False
    with "1.prems" show ?thesis by (subst (asm) dump_groups.simps) simp
  next
    case True
    obtain n l where scan: "dump_scan bufs maxOutputSize buffersPos 0 0 = (n, l)"
      by (cases "dump_scan bufs maxOutputSize buffersPos 0 0")
    from "1.prems" True scan
    consider "g = take n (drop buffersPos bufs)"
      | "g \<in> set (dump_groups bufs maxOutputSize (buffersPos + n))"
      by (subst (asm) dump_groups.simps) auto
    then show ?thesis
    proof cases
      case 1
      from dump_scan_progress [OF True scan]
      have n: "0 < n" "buffersPos + n \<le> length bufs" by simp_all
      then have lg: "length g = n" using 1 by simp
      have "buffersPos + 0 \<le> length bufs" using True by simp
      from dump_scan_len [OF this scan]
      have l: "l = length (concat g)" using 1 by simp
      from dump_scan_limit [OF scan] have "1 < n \<longrightarrow> int l \<le> maxOutputSize" by simp
      with lg l n show ?thesis by auto
    next
      case 2
      then show ?thesis by (rule "1.IH" [OF True scan [symmetric]])
    qed
  qed
qed

lemma dump_groups_greedy: "greedy m (dump_groups bufs m buffersPos)"
proof (induction bufs m buffersPos rule: dump_groups.induct)
  case (1 bufs maxOutputSize buffersPos)
  show ?case
  proof (cases "buffersPos < length bufs")
    case False
    then show ?thesis by (subst dump_groups.simps) simp
  next
    case True
    obtain n l where scan: "dump_scan bufs maxOutputSize buffersPos 0 0 = (n, l)"
      by (cases "dump_scan bufs maxOutputSize buffersPos 0 0")
    have here: "dump_groups bufs maxOutputSize buffersPos =
        take n (drop buffersPos bufs) # dump_groups bufs maxOutputSize (buffersPos + n)"
      using True scan by (subst dump_groups.simps) simp
    have IH: "greedy maxOutputSize (dump_groups bufs maxOutputSize (buffersPos + n))"
      by (rule "1.IH" [OF True scan [symmetric]])
    show ?thesis
    proof (cases "buffersPos + n < length bufs")
      case False
      then have "dump_groups bufs maxOutputSize (buffersPos + n) = []"
        by (subst dump_groups.simps) simp
      with here show ?thesis by simp
    next
      case next_one: True
      obtain n' l' where scan': "dump_scan bufs maxOutputSize (buffersPos + n) 0 0 = (n', l')"
        by (cases "dump_scan bufs maxOutputSize (buffersPos + n) 0 0")
      have there: "dump_groups bufs maxOutputSize (buffersPos + n) =
          take n' (drop (buffersPos + n) bufs) # dump_groups bufs maxOutputSize (buffersPos + n + n')"
        using next_one scan' by (subst dump_groups.simps) simp
      from dump_scan_progress [OF next_one scan'] have n': "0 < n'" by simp
      with next_one have hd: "hd (take n' (drop (buffersPos + n) bufs)) = bufs ! (buffersPos + n)"
        by (simp add: hd_drop_conv_nth)
      from n' next_one have ne: "take n' (drop (buffersPos + n) bufs) \<noteq> []" by simp
      from dump_scan_progress [OF True scan] have le: "buffersPos + n \<le> length bufs" by simp
      have "buffersPos + 0 \<le> length bufs" using True by simp
      from dump_scan_len [OF this scan]
      have l: "l = length (concat (take n (drop buffersPos bufs)))" by simp
      from dump_scan_break [OF scan next_one]
      have "maxOutputSize < int (l + length (bufs ! (buffersPos + n)))" by simp
      with l hd ne IH show ?thesis
        unfolding here there by simp
    qed
  qed
qed


lemma dump_groups_first_alone:
  assumes "N < int (length a)"
  shows "dump_groups [a, b, c] N 0 = [a] # dump_groups [a, b, c] N 1"
proof -
  have "dump_scan [a, b, c] N 0 1 (length a) = (1, length a)"
    using assms by (subst dump_scan.simps) simp
  then have "dump_scan [a, b, c] N 0 0 0 = (1, length a)"
    by (subst dump_scan.simps) simp
  then show ?thesis
    by (subst dump_groups.simps) simp
qed

text \<open>
  Claim C4.  For every buffer set and every limit \<open>N\<close>, \<open>dump(N)\<close> returns (it throws
  nowhere) the concatenations of consecutive groups of whole buffers, in order, which
  together are exactly the buffer set; every group holds at least one buffer; a group of
  more than one buffer has total size at most \<open>N\<close>; the packing is greedy; and on buffers
  \<open>[a, b, c]\<close> with \<open>a\<close> longer than \<open>N\<close> the first chunk is \<open>a\<close> alone.
\<close>

theorem dump_greedy_partition:
  "dump N e = Some (map concat (chunk_groups N e), e\<lparr>buffers := []\<rparr>) \<and>
   concat (chunk_groups N e) = buffers e \<and>
   (\<forall>g \<in> set (chunk_groups N e).
      g \<noteq> [] \<and> (1 < length g \<longrightarrow> int (length (concat g)) \<le> N)) \<and>
   greedy N (chunk_groups N e) \<and>
   (buffers e = [a, b, c] \<and> N < int (length a) \<longrightarrow>
      (\<exists>rest. chunk_groups N e = [a] # rest \<and>
         dump N e = Some (a # map concat rest, e\<lparr>buffers := []\<rparr>)))"
proof -
  have out: "dump N e = Some (map concat (chunk_groups N e), e\<lparr>buffers := []\<rparr>)"
    by (simp add: dump_def chunk_groups_def dump_loop_groups)
  have whole: "concat (chunk_groups N e) = buffers e"
    by (simp add: chunk_groups_def concat_dump_groups)
  have each: "\<forall>g \<in> set (chunk_groups N e).
      g \<noteq> [] \<and> (1 < length g \<longrightarrow> int (length (concat g)) \<le> N)"
    unfolding chunk_groups_def by (blast dest: dump_groups_chunks)
  have gr: "greedy N (chunk_groups N e)"
    by (simp add: chunk_groups_def dump_groups_greedy)
  have first: "\<exists>rest. chunk_groups N e = [a] # rest \<and>
         dump N e = Some (a # map concat rest, e\<lparr>buffers := []\<rparr>)"
    if "buffers e = [a, b, c]" and "N < int (length a)"
  proof -
    from that have "chunk_groups N e = [a] # dump_groups [a, b, c] N 1"
      by (simp add: chunk_groups_def dump_groups_first_alone)
    with out show ?thesis by simp
  qed
  from out whole each gr first show ?thesis by blast
qed

theorem dump_greedy_partition_witness:
  "(2::int) < int (length [1, 2, 3 :: byte]) \<and>
   chunk_groups 2 \<lparr>buffers = [[1, 2, 3], [4], [5]]\<rparr> = [[[1, 2, 3]], [[4], [5]]] \<and>
   dump 2 \<lparr>buffers = [[1, 2, 3], [4], [5]]\<rparr> = Some ([[1, 2, 3], [4, 5]], \<lparr>buffers = []\<rparr>)"
proof -
  have g: "chunk_groups 2 \<lparr>buffers = [[1, 2, 3], [4], [5 :: byte]]\<rparr> = [[[1, 2, 3]], [[4], [5]]]"
    by code_simp
  from dump_greedy_partition [of 2 "\<lparr>buffers = [[1, 2, 3], [4], [5]]\<rparr>" "[1, 2, 3]" "[4]" "[5]"]
  show ?thesis unfolding g by simp
qed

text \<open>
  Claim C9.  \<open>dump\<close> drains the buffer set: for every buffer set and all limits, the first
  \<open>dump\<close> returns the chunks of the whole buffer set (the concatenations of its groups,
  which together are the buffer set) and leaves the buffer set empty; and a second \<open>dump\<close>
  right after it, on the encoder the first one left, returns the empty sequence of chunks
  and leaves the buffer set empty.
\<close>

theorem dump_drains:
  "dump N e = Some (map concat (chunk_groups N e), e\<lparr>buffers := []\<rparr>) \<and>
   concat (chunk_groups N e) = buffers e \<and>
   buffers (e\<lparr>buffers := []\<rparr>) = [] \<and>
   dump M (e\<lparr>buffers := []\<rparr>) = Some ([], e\<lparr>buffers := []\<rparr>)"
proof -
  have first: "dump N e = Some (map concat (chunk_groups N e), e\<lparr>buffers := []\<rparr>)"
    by (simp add: dump_def chunk_groups_def dump_loop_groups)
  have whole: "concat (chunk_groups N e) = buffers e"
    by (simp add: chunk_groups_def concat_dump_groups)
  have second: "dump M (e\<lparr>buffers := []\<rparr>) = Some ([], e\<lparr>buffers := []\<rparr>)"
    by (simp add: dump_def dump_loop.simps)
  from first whole second show ?thesis by simp
qed

section \<open>The merge of results\<close>

lemma foldl_push_map: "foldl (\<lambda>ws x. push ws (f x)) xs ys = xs @ map f ys"
  by (induction ys arbitrary: xs) (simp_all add: push_def)

lemma foldl_push: "foldl push xs ys = xs @ ys"
  by (induction ys arbitrary: xs) (simp_all add: push_def)

lemma words_resultFromResponse:
  "words (resultFromResponse r) =
     map (\<lambda>j. wordFromJson j True) (fw r) @ map (\<lambda>j. wordFromJson j False) (nfw r)"
  by (simp add: resultFromResponse_def foldl_push_map)

lemma pop_nonfinal_final:
  assumes "\<forall>w \<in> set xs. is_final w"
  shows "pop_nonfinal xs = xs"
proof (cases "xs = []")
  case True
  then show ?thesis by (subst pop_nonfinal.simps) simp
next
  case False
  then have "xs ! (length xs - 1) \<in> set xs" by simp
  with assms have "is_final (xs ! (length xs - 1))" by blast
  then show ?thesis by (subst pop_nonfinal.simps) simp
qed

lemma pop_nonfinal_append:
  "\<forall>w \<in> set xs. is_final w \<Longrightarrow> \<forall>w \<in> set ys. \<not> is_final w \<Longrightarrow> pop_nonfinal (xs @ ys) = xs"
proof (induction ys rule: rev_induct)
  case Nil
  then show ?case by (simp add: pop_nonfinal_final)
next
  case (snoc y ys)
  have last: "(xs @ ys @ [y]) ! (length (xs @ ys @ [y]) - 1) = y"
    by (simp add: nth_append)
  have but: "butlast (xs @ ys @ [y]) = xs @ ys"
    by (simp add: butlast_append)
  from snoc.prems have "\<not> is_final y" by simp
  then have "pop_nonfinal (xs @ ys @ [y]) = pop_nonfinal (xs @ ys)"
    by (subst pop_nonfinal.simps) (simp only: last but, simp)
  with snoc show ?case by simp
qed

lemma words_updateResult:
  "words (updateResult res (resultFromResponse r)) =
     pop_nonfinal (words res) @ map (\<lambda>j. wordFromJson j True) (fw r)
       @ map (\<lambda>j. wordFromJson j False) (nfw r)"
  by (simp add: updateResult_def foldl_push words_resultFromResponse)

lemma merged_snoc: "merged (rs @ [r]) = updateResult (merged rs) (resultFromResponse r)"
  by (simp add: merged_def)

lemma merged_shape:
  "words (merged rs) =
     filter is_final (words (merged rs)) @ filter (\<lambda>w. \<not> is_final w) (words (merged rs)) \<and>
   pop_nonfinal (words (merged rs)) = filter is_final (words (merged rs))"
proof (induction rs rule: rev_induct)
  case Nil
  show ?case by (simp add: merged_def initialResult_def pop_nonfinal_final)
next
  case (snoc r rs)
  let ?P = "filter is_final (words (merged rs))"
  let ?F = "map (\<lambda>j. wordFromJson j True) (fw r)"
  let ?N = "map (\<lambda>j. wordFromJson j False) (nfw r)"
  from snoc have pop: "pop_nonfinal (words (merged rs)) = ?P" by (rule conjunct2)
  have w: "words (merged (rs @ [r])) = (?P @ ?F) @ ?N"
    by (simp add: merged_snoc words_updateResult pop)
  have fin: "\<forall>w \<in> set (?P @ ?F). is_final w" by (auto simp: wordFromJson_def)
  have non: "\<forall>w \<in> set ?N. \<not> is_final w" by (auto simp: wordFromJson_def)
  have f1: "filter is_final ((?P @ ?F) @ ?N) = ?P @ ?F"
    by (simp add: filter_empty_conv wordFromJson_def o_def)
  have f2: "filter (\<lambda>w. \<not> is_final w) ((?P @ ?F) @ ?N) = ?N"
    by (simp add: filter_empty_conv wordFromJson_def o_def)
  have p: "pop_nonfinal ((?P @ ?F) @ ?N) = ?P @ ?F"
    by (rule pop_nonfinal_append [OF fin non])
  show ?case unfolding w f1 f2 p by simp
qed

section \<open>The session\<close>

lemmas release_defs = closeResources_def closeMedia_def closeWebSocket_def logEffects_def

lemma closeResources_fields:
  "state (closeResources s) = state s"
  "result (closeResources s) = result s"
  "onStarted (closeResources s) = onStarted s"
  "onPartialResult (closeResources s) = onPartialResult s"
  "onFinished (closeResources s) = onFinished s"
  "onError (closeResources s) = onError s"
  "recordTranscribeActive (closeResources s) = recordTranscribeActive s"
  "webSocket (closeResources s) = False"
  "mediaRecorder (closeResources s) = None"
  "mediaStream (closeResources s) = False"
  by (simp_all add: release_defs Let_def split: option.splits)

lemma closeResources_callbacks:
  "filter isCallback (effects (closeResources s)) = filter isCallback (effects s)"
  "filter isTerminalCallback (effects (closeResources s)) = filter isTerminalCallback (effects s)"
  by (simp_all add: release_defs Let_def split: option.splits)

lemma closeResources_released:
  "webSocket s \<Longrightarrow> WsClose \<in> set (effects (closeResources s))"
  "mediaRecorder s \<noteq> None \<Longrightarrow> TerminateWorker \<in> set (effects (closeResources s))"
  "mediaRecorder s = Some recording \<Longrightarrow> RecorderStop \<in> set (effects (closeResources s))"
  "mediaStream s \<Longrightarrow> TracksStop \<in> set (effects (closeResources s))"
  by (auto simp add: release_defs Let_def split: option.splits)

lemma closeMedia_fields:
  "state (closeMedia s) = state s"
  "result (closeMedia s) = result s"
  "webSocket (closeMedia s) = webSocket s"
  "filter isCallback (effects (closeMedia s)) = filter isCallback (effects s)"
  "filter isTerminalCallback (effects (closeMedia s)) = filter isTerminalCallback (effects s)"
  by (simp_all add: release_defs Let_def split: option.splits)

lemma handleFinished_fields:
  "state (handleFinished s) = Finished"
  "result (handleFinished s) = result s"
  "filter isCallback (effects (handleFinished s)) =
     filter isCallback (effects s) @ (if onFinished s then [OnFinished] else [])"
  "filter isTerminalCallback (effects (handleFinished s)) =
     filter isTerminalCallback (effects s) @ (if onFinished s then [OnFinished] else [])"
  by (simp_all add: handleFinished_def Let_def logEffects_def closeResources_fields
        closeResources_callbacks)

lemma handleError_fields:
  "state (handleError status message s) = Error"
  "result (handleError status message s) = result s"
  "filter isCallback (effects (handleError status message s)) =
     filter isCallback (effects s) @ (if onError s then [OnError status message] else [])"
  "filter isTerminalCallback (effects (handleError status message s)) =
     filter isTerminalCallback (effects s) @ (if onError s then [OnError status message] else [])"
  by (simp_all add: handleError_def Let_def logEffects_def closeResources_fields
        closeResources_callbacks)

lemma goRunningToFinishing_fields:
  "state (snd (goRunningToFinishing s)) = state s \<or> state (snd (goRunningToFinishing s)) = Finishing"
  "result (snd (goRunningToFinishing s)) = result s"
  "filter isCallback (effects (snd (goRunningToFinishing s))) = filter isCallback (effects s)"
  "filter isTerminalCallback (effects (snd (goRunningToFinishing s))) =
     filter isTerminalCallback (effects s)"
  by (simp_all add: goRunningToFinishing_def Let_def logEffects_def closeMedia_fields)

lemmas handler_defs =
  setOnStarted_def setOnPartialResult_def setOnFinished_def setOnError_def start_def stop_def
  cancel_def onGetUserMediaSuccess_def onGetUserMediaError_def onMediaRecorderStop_def
  onMediaRecorderData_def onWebSocketOpen_def onWebSocketClose_def onWebSocketError_def
  onWebSocketMessage_def completeFinishingEarly_def

lemma step_result:
  "result (snd (step ev s)) = result s \<or>
   (\<exists>resp. result (snd (step ev s)) = updateResult (result s) (resultFromResponse resp))"
proof (cases ev)
  case (WebSocketMessage data)
  then show ?thesis
    by (cases data) (auto simp add: onWebSocketMessage_def Let_def logEffects_def)
next
  case Stop
  then show ?thesis
    by (simp add: stop_def goRunningToFinishing_def release_defs Let_def split: option.splits)
next
  case MediaRecorderStop
  then show ?thesis
    by (simp add: onMediaRecorderStop_def goRunningToFinishing_def release_defs Let_def
          split: option.splits)
next
  case (WebSocketClose code reason)
  then show ?thesis
    by (simp add: onWebSocketClose_def handleError_fields handleFinished_fields
          split: option.splits)
next
  case WebSocketOpen
  then show ?thesis
    by (simp add: onWebSocketOpen_def Let_def logEffects_def split: option.splits)
qed (simp_all add: handler_defs logEffects_def handleError_fields handleFinished_fields
       closeResources_fields)

lemma run_result_merged:
  "result s = merged rs \<Longrightarrow> \<exists>frames. result (run evs s) = merged frames"
proof (induction evs arbitrary: s rs)
  case Nil
  then show ?case by auto
next
  case (Cons ev evs)
  from step_result [of ev s] Cons.prems
  have "\<exists>rs'. result (snd (step ev s)) = merged rs'"
    by (metis merged_snoc)
  then obtain rs' where "result (snd (step ev s)) = merged rs'" ..
  from Cons.IH [OF this] show ?case by simp
qed

lemma result_run_merged: "\<exists>frames. getResult (run evs constructor) = merged frames"
proof -
  have "result constructor = merged []"
    by (simp add: constructor_def merged_def)
  from run_result_merged [OF this] show ?thesis by (simp add: getResult_def)
qed

text \<open>
  Claim C2.  For every accumulated result \<open>R1\<close> (the merge of any sequence of result frames)
  and every incoming frame \<open>R2\<close>, the words after merging \<open>R2\<close> are the final words of
  \<open>R1\<close>, then the final words of \<open>R2\<close>, then the non-final words of \<open>R2\<close>; the words of
  \<open>R1\<close> are its final words followed by its non-final words, so what is removed is its
  whole trailing non-final run; and both processing times are those of \<open>R2\<close>.  The
  result of a session is such a merge after every sequence of events.
\<close>

theorem merge_replaces_nonfinal_run:
  "words (updateResult (merged rs) (resultFromResponse r2)) =
     filter is_final (words (merged rs))
       @ map (\<lambda>j. wordFromJson j True) (fw r2) @ map (\<lambda>j. wordFromJson j False) (nfw r2) \<and>
   words (merged rs) =
     filter is_final (words (merged rs)) @ filter (\<lambda>w. \<not> is_final w) (words (merged rs)) \<and>
   final_proc_time_ms (updateResult (merged rs) (resultFromResponse r2)) = fpt r2 \<and>
   total_proc_time_ms (updateResult (merged rs) (resultFromResponse r2)) = tpt r2 \<and>
   (\<exists>frames. getResult (run evs constructor) = merged frames)"
proof -
  have "words (updateResult (merged rs) (resultFromResponse r2)) =
     filter is_final (words (merged rs))
       @ map (\<lambda>j. wordFromJson j True) (fw r2) @ map (\<lambda>j. wordFromJson j False) (nfw r2)"
    by (simp add: words_updateResult conjunct2 [OF merged_shape])
  moreover have "final_proc_time_ms (updateResult (merged rs) (resultFromResponse r2)) = fpt r2"
    by (simp add: updateResult_def resultFromResponse_def)
  moreover have "total_proc_time_ms (updateResult (merged rs) (resultFromResponse r2)) = tpt r2"
    by (simp add: updateResult_def resultFromResponse_def)
  moreover note result_run_merged [of evs]
  ultimately show ?thesis using merged_shape [of rs] by blast
qed

text \<open>A session made by \<open>constructor\<close> holds what its handlers dereference, after any
  events; so no handler throws a \<open>TypeError\<close> on \<open>null\<close>: the one \<open>TypeError\<close> left is that
  of a malformed frame.\<close>

lemma resources_held_step: "resources_held s \<Longrightarrow> resources_held (snd (step ev s))"
proof (cases ev)
  case (WebSocketClose code reason)
  assume "resources_held s"
  with WebSocketClose show ?thesis
    by (auto simp add: resources_held_def onWebSocketClose_def isWebSocketState_def
          handleError_fields handleFinished_fields split: option.splits)
next
  case WebSocketOpen
  assume "resources_held s"
  with WebSocketOpen show ?thesis
    by (auto simp add: resources_held_def onWebSocketOpen_def isWebSocketState_def
          logEffects_def Let_def split: option.splits)
next
  case (WebSocketMessage data)
  assume "resources_held s"
  with WebSocketMessage show ?thesis
    by (cases data)
       (auto simp add: resources_held_def onWebSocketMessage_def isWebSocketState_def
          logEffects_def Let_def)
next
  case Stop
  assume "resources_held s"
  with Stop show ?thesis
    by (auto simp add: resources_held_def stop_def goRunningToFinishing_def isWebSocketState_def
          logEffects_def Let_def closeMedia_fields closeResources_fields)
next
  case MediaRecorderStop
  assume "resources_held s"
  with MediaRecorderStop show ?thesis
    by (auto simp add: resources_held_def onMediaRecorderStop_def goRunningToFinishing_def
          isWebSocketState_def logEffects_def Let_def closeMedia_fields)
qed (auto simp add: resources_held_def handler_defs isWebSocketState_def isInactiveState_def
       logEffects_def handleError_fields handleFinished_fields closeResources_fields)

lemma resources_held_run: "resources_held s \<Longrightarrow> resources_held (run evs s)"
  by (induction evs arbitrary: s) (simp_all add: resources_held_step)

lemma no_null_dereference_step:
  assumes "resources_held s" and "fst (step ev s) = Threw ''TypeError''"
  shows "ev = WebSocketMessage Malformed"
proof (cases ev)
  case WebSocketOpen
  with assms show ?thesis
    by (auto simp add: resources_held_def onWebSocketOpen_def isWebSocketState_def
          logEffects_def Let_def split: option.splits if_splits)
next
  case (WebSocketMessage data)
  with assms show ?thesis
    by (cases data) (auto simp add: onWebSocketMessage_def Let_def split: if_splits)
next
  case (WebSocketClose code reason)
  with assms show ?thesis
    by (auto simp add: onWebSocketClose_def split: option.splits if_splits)
qed (use assms in \<open>auto simp add: resources_held_def handler_defs isWebSocketState_def
       goRunningToFinishing_def Let_def closeMedia_fields split: if_splits\<close>)

lemma no_null_dereference_run:
  "fst (step ev (run evs constructor)) = Threw ''TypeError'' \<Longrightarrow> ev = WebSocketMessage Malformed"
proof -
  have "resources_held constructor"
    by (simp add: resources_held_def constructor_def isWebSocketState_def)
  then have "resources_held (run evs constructor)" by (rule resources_held_run)
  then show "fst (step ev (run evs constructor)) = Threw ''TypeError'' \<Longrightarrow>
      ev = WebSocketMessage Malformed"
    by (rule no_null_dereference_step)
qed

lemma step_terminal:
  assumes "isTerminalState (state s)"
  shows "snd (step ev s) = s \<or> snd (step ev s) = logEffects [StaleTracksStop] s"
  using assms
  by (cases ev)
     (auto simp add: handler_defs isTerminalState_def isInactiveState_def isWebSocketState_def)

lemma step_terminal_fields:
  assumes "isTerminalState (state s)"
  shows "state (snd (step ev s)) = state s"
    and "result (snd (step ev s)) = result s"
    and "filter isCallback (effects (snd (step ev s))) = filter isCallback (effects s)"
  using step_terminal [OF assms, of ev] by (auto simp add: logEffects_def)

lemma run_terminal:
  "isTerminalState (state s) \<Longrightarrow>
   state (run evs s) = state s \<and> result (run evs s) = result s \<and>
   filter isCallback (effects (run evs s)) = filter isCallback (effects s)"
proof (induction evs arbitrary: s)
  case Nil
  show ?case by simp
next
  case (Cons ev evs)
  from Cons.prems have "isTerminalState (state (snd (step ev s)))"
    by (simp add: step_terminal_fields)
  from Cons.IH [OF this] Cons.prems show ?case
    by (simp add: step_terminal_fields)
qed

lemma run_append: "run (evs1 @ evs2) s = run evs2 (run evs1 s)"
  by (induction evs1 arbitrary: s) simp_all

lemma tinv_terminal_step:
  assumes "isTerminalState (state s)" and "tinv s"
  shows "tinv (snd (step ev s))"
  using step_terminal [OF assms(1), of ev] assms(2)
  by (auto simp add: tinv_def logEffects_def)

lemma tinv_active_step:
  assumes "\<not> isTerminalState (state s)" and "filter isTerminalCallback (effects s) = []"
  shows "tinv (snd (step ev s))"
proof (cases ev)
  case Stop
  with assms show ?thesis
    using goRunningToFinishing_fields(1,4) [of s]
    by (auto simp add: tinv_def stop_def logEffects_def closeResources_callbacks
          closeResources_fields isTerminalState_def)
next
  case MediaRecorderStop
  with assms show ?thesis
    using goRunningToFinishing_fields(1,4) [of s]
    by (auto simp add: tinv_def onMediaRecorderStop_def isTerminalState_def)
next
  case (WebSocketClose code reason)
  with assms show ?thesis
    by (auto simp add: tinv_def onWebSocketClose_def handleError_fields handleFinished_fields
          isTerminalState_def split: option.splits)
next
  case WebSocketOpen
  with assms show ?thesis
    by (auto simp add: tinv_def onWebSocketOpen_def logEffects_def Let_def isTerminalState_def
          split: option.splits)
next
  case (WebSocketMessage data)
  with assms show ?thesis
    by (auto simp add: tinv_def onWebSocketMessage_def logEffects_def Let_def isTerminalState_def
          split: message_data.splits)
qed (use assms in \<open>auto simp add: tinv_def handler_defs logEffects_def handleError_fields
       handleFinished_fields closeResources_callbacks closeResources_fields isTerminalState_def\<close>)

lemma tinv_step: "tinv s \<Longrightarrow> tinv (snd (step ev s))"
proof (cases "isTerminalState (state s)")
  case True
  assume "tinv s"
  with True show ?thesis by (rule tinv_terminal_step)
next
  case False
  assume "tinv s"
  with False have "filter isTerminalCallback (effects s) = []"
    by (auto simp add: tinv_def isTerminalState_def)
  with False show ?thesis by (rule tinv_active_step)
qed

lemma tinv_run: "tinv s \<Longrightarrow> tinv (run evs s)"
  by (induction evs arbitrary: s) (simp_all add: tinv_step)

lemma tinv_constructor: "tinv constructor"
  by (simp add: tinv_def constructor_def)

lemma tinv_count: "tinv s \<Longrightarrow> length (filter isTerminalCallback (effects s)) \<le> 1"
  by (simp add: tinv_def split: if_splits)

lemmas eval_defs =
  handler_defs release_defs constructor_def initialResult_def goRunningToFinishing_def
  handleError_def handleFinished_def isInactiveState_def isWebSocketState_def Let_def

lemma init_session_eq:
  "init_session =
     \<lparr>state = Init, onStarted = False, onPartialResult = False, onFinished = True,
      onError = True, mediaStream = False, mediaRecorder = None, webSocket = False,
      result = \<lparr>words = [], final_proc_time_ms = 0, total_proc_time_ms = 0\<rparr>,
      recordTranscribeActive = False, effects = []\<rparr>"
  by (simp add: init_session_def eval_defs)

lemma requesting_session_eq:
  "requesting_session =
     \<lparr>state = RequestingMedia, onStarted = False, onPartialResult = False, onFinished = True,
      onError = True, mediaStream = False, mediaRecorder = None, webSocket = False,
      result = \<lparr>words = [], final_proc_time_ms = 0, total_proc_time_ms = 0\<rparr>,
      recordTranscribeActive = True, effects = [GetUserMedia]\<rparr>"
  by (simp add: requesting_session_def init_session_eq eval_defs)

lemma running_session_eq:
  "running_session =
     \<lparr>state = Running, onStarted = False, onPartialResult = False, onFinished = True,
      onError = True, mediaStream = True, mediaRecorder = Some recording, webSocket = True,
      result = \<lparr>words = [], final_proc_time_ms = 0, total_proc_time_ms = 0\<rparr>,
      recordTranscribeActive = True,
      effects = [GetUserMedia, NewMediaRecorder, NewWebSocket, RecorderStart,
                 WsSend ConfigFrame]\<rparr>"
  by (simp add: running_session_def requesting_session_eq eval_defs)

lemma finishing_session_eq:
  "finishing_session =
     \<lparr>state = Finishing, onStarted = False, onPartialResult = False, onFinished = True,
      onError = True, mediaStream = False, mediaRecorder = None, webSocket = True,
      result = \<lparr>words = [], final_proc_time_ms = 0, total_proc_time_ms = 0\<rparr>,
      recordTranscribeActive = True,
      effects = [GetUserMedia, NewMediaRecorder, NewWebSocket, RecorderStart,
                 WsSend ConfigFrame, RecorderStop, TerminateWorker, TracksStop,
                 WsSend EndOfAudio]\<rparr>"
  by (simp add: finishing_session_def running_session_eq eval_defs)

text \<open>
  \<open>StatusMessageRegex_exec\<close> against the pattern read as a grammar: it returns groups
  \<open>token\<close> and \<open>message\<close> exactly on the reasons \<^verbatim>\<open><\<close> \<open>token\<close> \<^verbatim>\<open>>\<close> \<open>spaces\<close> \<open>message\<close>
  with a non-empty token of token characters, and a message that is empty or starts with
  no space and has no line terminator after its first character.
\<close>

lemma gt_not_token: "\<not> isTokenChar CHR ''>''"
  by (simp add: isTokenChar_def)

lemma takeWhile_run:
  "\<forall>x \<in> set xs. P x \<Longrightarrow> (rest = [] \<or> \<not> P (hd rest)) \<Longrightarrow> takeWhile P (xs @ rest) = xs"
  by (induction xs) (auto simp add: takeWhile_eq_Nil_iff neq_Nil_conv)

lemma dropWhile_run:
  "\<forall>x \<in> set xs. P x \<Longrightarrow> (rest = [] \<or> \<not> P (hd rest)) \<Longrightarrow> dropWhile P (xs @ rest) = rest"
  by (induction xs) (auto simp add: dropWhile_eq_self_iff neq_Nil_conv)

lemma exec_unfold:
  "StatusMessageRegex_exec (CHR ''<'' # afterOpen) =
     (if takeWhile isTokenChar afterOpen = [] then None
      else case dropWhile isTokenChar afterOpen of
         [] \<Rightarrow> None
       | d # afterClose \<Rightarrow>
           if d \<noteq> CHR ''>'' then None
           else message_part (takeWhile isTokenChar afterOpen)
                  (dropWhile (\<lambda>x. x = CHR '' '') afterClose))"
  unfolding StatusMessageRegex_exec_def message_part_def Let_def by simp

lemma StatusMessageRegex_exec_matches:
  assumes "token \<noteq> []" and "\<forall>c \<in> set token. isTokenChar c"
    and "\<forall>c \<in> set spaces. c = CHR '' ''"
    and "message = [] \<or> (hd message \<noteq> CHR '' '' \<and> \<not> list_ex isLineTerminator (tl message))"
  shows "StatusMessageRegex_exec (''<'' @ token @ ''>'' @ spaces @ message) = Some (token, message)"
proof -
  have tk: "takeWhile isTokenChar (token @ CHR ''>'' # spaces @ message) = token"
    using assms(2) gt_not_token by (intro takeWhile_run) simp_all
  have dk: "dropWhile isTokenChar (token @ CHR ''>'' # spaces @ message) = CHR ''>'' # spaces @ message"
    using assms(2) gt_not_token by (intro dropWhile_run) simp_all
  have ds: "dropWhile (\<lambda>x. x = CHR '' '') (spaces @ message) = message"
    using assms(3,4) by (intro dropWhile_run) auto
  have mp: "message_part token message = Some (token, message)"
    using assms(4) by (cases message) (simp_all add: message_part_def)
  have "StatusMessageRegex_exec (CHR ''<'' # token @ CHR ''>'' # spaces @ message) =
      Some (token, message)"
    using assms(1) by (simp add: exec_unfold tk dk ds mp)
  then show ?thesis by simp
qed

lemma token_part_Some:
  assumes "(if tk = [] then None
      else case af of [] \<Rightarrow> None
           | d # ac \<Rightarrow> if d \<noteq> g then None else F ac) = Some v"
  shows "tk \<noteq> [] \<and> (\<exists>ac. af = g # ac \<and> F ac = Some v)"
  using assms by (cases af) (auto split: if_splits)

lemma message_part_Some:
  assumes "message_part tk ms = Some (token, message)"
  shows "token = tk \<and> message = ms \<and> (ms = [] \<or> \<not> list_ex isLineTerminator (tl ms))"
  using assms by (cases ms) (auto simp add: message_part_def split: if_splits)

lemma StatusMessageRegex_exec_Some:
  assumes "StatusMessageRegex_exec reason = Some (token, message)"
  shows "\<exists>spaces. reason = ''<'' @ token @ ''>'' @ spaces @ message \<and>
           token \<noteq> [] \<and> (\<forall>c \<in> set token. isTokenChar c) \<and>
           (\<forall>c \<in> set spaces. c = CHR '' '') \<and>
           (message = [] \<or> (hd message \<noteq> CHR '' '' \<and> \<not> list_ex isLineTerminator (tl message)))"
proof -
  from assms obtain afterOpen where r: "reason = CHR ''<'' # afterOpen"
    by (cases reason) (simp_all add: StatusMessageRegex_exec_def split: if_splits)
  let ?tok = "takeWhile isTokenChar afterOpen"
  let ?after = "dropWhile isTokenChar afterOpen"
  from assms have "StatusMessageRegex_exec (CHR ''<'' # afterOpen) = Some (token, message)"
    by (simp only: r)
  then have "(if ?tok = [] then None
      else case ?after of [] \<Rightarrow> None
           | d # ac \<Rightarrow> if d \<noteq> CHR ''>'' then None
               else message_part ?tok (dropWhile (\<lambda>x. x = CHR '' '') ac)) = Some (token, message)"
    by (simp only: exec_unfold)
  from token_part_Some [where F = "\<lambda>ac. message_part ?tok (dropWhile (\<lambda>x. x = CHR '' '') ac)", OF this]
  obtain afterClose where tok: "?tok \<noteq> []" and a: "?after = CHR ''>'' # afterClose"
    and mp: "message_part ?tok (dropWhile (\<lambda>x. x = CHR '' '') afterClose) = Some (token, message)"
    by blast
  let ?sp = "takeWhile (\<lambda>x. x = CHR '' '') afterClose"
  let ?msg = "dropWhile (\<lambda>x. x = CHR '' '') afterClose"
  from message_part_Some [OF mp]
  have res: "token = ?tok" "message = ?msg" "?msg = [] \<or> \<not> list_ex isLineTerminator (tl ?msg)"
    by blast+
  have "?tok @ ?after = afterOpen" and "?sp @ ?msg = afterClose" by simp_all
  then have "?tok @ CHR ''>'' # ?sp @ ?msg = afterOpen" by (simp only: a)
  then have shape: "reason = ''<'' @ ?tok @ ''>'' @ ?sp @ ?msg"
    by (simp only: r append_Cons append_Nil)
  have t: "\<forall>c \<in> set ?tok. isTokenChar c" by (blast dest: set_takeWhileD)
  have sp: "\<forall>c \<in> set ?sp. c = CHR '' ''" by (blast dest: set_takeWhileD)
  have h: "?msg = [] \<or> hd ?msg \<noteq> CHR '' ''"
    using hd_dropWhile [of "\<lambda>x. x = CHR '' ''" afterClose] by blast
  from shape t sp h res(3) tok show ?thesis
    unfolding res(1,2) by blast
qed

text \<open>A reason that the pattern does not match, with code 1000: \<open>other_asr_error\<close> with
  the reason as message, in every state of \<open>isWebSocketState\<close>.\<close>

lemma close_unmatched_reason:
  assumes "isWebSocketState (state s)" and "StatusMessageRegex_exec reason = None"
  shows "state (snd (onWebSocketClose 1000 reason s)) = Error \<and>
         callbacks (effects (snd (onWebSocketClose 1000 reason s))) =
           callbacks (effects s) @ (if onError s then [OnError ''other_asr_error'' reason] else [])"
  using assms by (simp add: onWebSocketClose_def handleError_fields callbacks_def)

lemma regex_eof_bare: "StatusMessageRegex_exec ''eof'' = None"
  by (simp add: StatusMessageRegex_exec_def)

lemma regex_eof_bracketed: "StatusMessageRegex_exec ''<eof>'' = Some (''eof'', [])"
  by (simp add: StatusMessageRegex_exec_def isTokenChar_def)

text \<open>
  Claim C1, as amended.  If the socket closes with code 1000 and a reason that matches the
  status pattern with token \<open>eof\<close> (such as \<^verbatim>\<open><eof>\<close>) while the session is in
  \<open>Finishing\<close>, the handler returns, the state becomes \<open>Finished\<close>, and \<open>onFinished\<close>, when
  registered, is called exactly once and no other callback is.
\<close>

theorem close_eof_in_Finishing:
  assumes "state s = Finishing"
    and "StatusMessageRegex_exec reason = Some (''eof'', message)"
  shows "fst (onWebSocketClose 1000 reason s) = Returned \<and>
         state (snd (onWebSocketClose 1000 reason s)) = Finished \<and>
         callbacks (effects (snd (onWebSocketClose 1000 reason s))) =
           callbacks (effects s) @ (if onFinished s then [OnFinished] else [])"
  using assms
  by (simp add: onWebSocketClose_def isWebSocketState_def handleFinished_fields callbacks_def)

theorem close_eof_in_Finishing_witness:
  "state finishing_session = Finishing \<and>
   StatusMessageRegex_exec ''<eof>'' = Some (''eof'', []) \<and>
   onFinished finishing_session \<and>
   callbacks (effects finishing_session) = [] \<and>
   state (snd (onWebSocketClose 1000 ''<eof>'' finishing_session)) = Finished \<and>
   callbacks (effects (snd (onWebSocketClose 1000 ''<eof>'' finishing_session))) = [OnFinished]"
proof -
  have st: "state finishing_session = Finishing" by (simp add: finishing_session_eq)
  have cb: "callbacks (effects finishing_session) = []"
    by (simp add: finishing_session_eq callbacks_def)
  have reg: "onFinished finishing_session" by (simp add: finishing_session_eq)
  from close_eof_in_Finishing [OF st regex_eof_bracketed] st cb reg regex_eof_bracketed
  show ?thesis by simp
qed

text \<open>
  Claim C1 as stated fails: the reason \<open>eof\<close> without the angle brackets does not match
  the pattern; in \<open>Finishing\<close> the session goes to \<open>Error\<close> and \<open>onError\<close> is called with
  \<open>other_asr_error\<close> and the reason as message.
\<close>

theorem close_eof_literal_counterexample:
  "state finishing_session = Finishing \<and>
   state (snd (onWebSocketClose 1000 ''eof'' finishing_session)) = Error \<and>
   callbacks (effects (snd (onWebSocketClose 1000 ''eof'' finishing_session))) =
     [OnError ''other_asr_error'' ''eof'']"
  by (simp add: onWebSocketClose_def isWebSocketState_def regex_eof_bare handleError_fields
        callbacks_def finishing_session_eq)

lemma finished_session_eq:
  "finished_session =
     \<lparr>state = Finished, onStarted = False, onPartialResult = False, onFinished = True,
      onError = True, mediaStream = False, mediaRecorder = None, webSocket = False,
      result = \<lparr>words = [], final_proc_time_ms = 0, total_proc_time_ms = 0\<rparr>,
      recordTranscribeActive = False,
      effects = [GetUserMedia, NewMediaRecorder, NewWebSocket, RecorderStart,
                 WsSend ConfigFrame, RecorderStop, TerminateWorker, TracksStop,
                 WsSend EndOfAudio, WsClose, OnFinished]\<rparr>"
  by (simp add: finished_session_def finishing_session_eq regex_eof_bracketed eval_defs)

text \<open>
  Claim C3, as amended.  In every state other than \<open>RequestingMedia\<close>, \<open>OpeningWebSocket\<close>
  and \<open>Running\<close>, the inactive states included, \<open>stop()\<close> returns and changes nothing: no
  state change, no callback, no error.
\<close>

theorem stop_noop_elsewhere:
  assumes "state s \<noteq> RequestingMedia" and "state s \<noteq> OpeningWebSocket"
    and "state s \<noteq> Running"
  shows "stop s = (Returned, s)"
  using assms by (simp add: stop_def)

theorem stop_noop_elsewhere_witness:
  "state finishing_session \<noteq> RequestingMedia \<and> state finishing_session \<noteq> OpeningWebSocket \<and>
   state finishing_session \<noteq> Running \<and> stop finishing_session = (Returned, finishing_session)"
proof -
  have "state finishing_session = Finishing" by (simp add: finishing_session_eq)
  then have h: "state finishing_session \<noteq> RequestingMedia"
    "state finishing_session \<noteq> OpeningWebSocket" "state finishing_session \<noteq> Running"
    by simp_all
  from stop_noop_elsewhere [OF h] h show ?thesis by simp
qed

text \<open>
  Claim C3 as stated fails: \<open>stop()\<close> on an inactive session with \<open>onError\<close> registered, in
  \<open>Init\<close> or in \<open>Finished\<close>, calls no callback and leaves the session as it is.
\<close>

theorem stop_inactive_counterexample:
  "isInactiveState (state init_session) \<and> onError init_session \<and>
   stop init_session = (Returned, init_session) \<and> effects init_session = [] \<and>
   isInactiveState (state finished_session) \<and> onError finished_session \<and>
   stop finished_session = (Returned, finished_session) \<and>
   callbacks (effects finished_session) = [OnFinished]"
  by (simp add: init_session_eq finished_session_eq stop_def isInactiveState_def callbacks_def)

text \<open>
  Claim C6.  If the socket closes with code 1000 and a reason whose token is \<open>eof\<close> while
  the session is in \<open>OpeningWebSocket\<close> or \<open>Running\<close>, the state becomes \<open>Error\<close> and the
  error callback is called, once, with status \<open>other_asr_error\<close> and message
  \<open>Unexpected EOF received.\<close>
\<close>

theorem unexpected_eof:
  assumes "state s = OpeningWebSocket \<or> state s = Running"
    and "StatusMessageRegex_exec reason = Some (''eof'', message)"
    and "onError s"
  shows "fst (onWebSocketClose 1000 reason s) = Returned \<and>
         state (snd (onWebSocketClose 1000 reason s)) = Error \<and>
         callbacks (effects (snd (onWebSocketClose 1000 reason s))) =
           callbacks (effects s) @ [OnError ''other_asr_error'' ''Unexpected EOF received.'']"
  using assms
  by (auto simp add: onWebSocketClose_def isWebSocketState_def handleError_fields callbacks_def)

theorem unexpected_eof_witness:
  "(state running_session = OpeningWebSocket \<or> state running_session = Running) \<and>
   StatusMessageRegex_exec ''<eof>'' = Some (''eof'', []) \<and> onError running_session \<and>
   state (snd (onWebSocketClose 1000 ''<eof>'' running_session)) = Error \<and>
   callbacks (effects (snd (onWebSocketClose 1000 ''<eof>'' running_session))) =
     [OnError ''other_asr_error'' ''Unexpected EOF received.'']"
proof -
  have st: "state running_session = OpeningWebSocket \<or> state running_session = Running"
    by (simp add: running_session_eq)
  have reg: "onError running_session" by (simp add: running_session_eq)
  have cb: "callbacks (effects running_session) = []"
    by (simp add: running_session_eq callbacks_def)
  from unexpected_eof [OF st regex_eof_bracketed reg] st reg cb regex_eof_bracketed
  show ?thesis by simp
qed

text \<open>
  Claim C7, as amended.  From every active state (\<open>RequestingMedia\<close>, \<open>OpeningWebSocket\<close>,
  \<open>Running\<close>, \<open>Finishing\<close>, \<open>FinishingEarly\<close>) \<open>cancel()\<close> releases the socket, the
  recorder and the stream and sets the state \<open>Canceled\<close>; from \<open>Init\<close> and the terminal
  states it does nothing; a second \<open>cancel()\<close> in a row changes nothing, and no callback is
  called by either.
\<close>

theorem cancel_idempotent:
  "(\<not> isInactiveState (state s) \<longrightarrow>
      fst (cancel s) = Returned \<and> state (snd (cancel s)) = Canceled \<and>
      \<not> webSocket (snd (cancel s)) \<and> mediaRecorder (snd (cancel s)) = None \<and>
      \<not> mediaStream (snd (cancel s)) \<and> \<not> recordTranscribeActive (snd (cancel s)) \<and>
      (webSocket s \<longrightarrow> WsClose \<in> set (effects (snd (cancel s)))) \<and>
      (mediaRecorder s \<noteq> None \<longrightarrow> TerminateWorker \<in> set (effects (snd (cancel s)))) \<and>
      (mediaRecorder s = Some recording \<longrightarrow> RecorderStop \<in> set (effects (snd (cancel s)))) \<and>
      (mediaStream s \<longrightarrow> TracksStop \<in> set (effects (snd (cancel s))))) \<and>
   (isInactiveState (state s) \<longrightarrow> cancel s = (Returned, s)) \<and>
   cancel (snd (cancel s)) = (Returned, snd (cancel s)) \<and>
   callbacks (effects (snd (cancel (snd (cancel s))))) = callbacks (effects s)"
proof -
  have active: "fst (cancel s) = Returned \<and> state (snd (cancel s)) = Canceled \<and>
      \<not> webSocket (snd (cancel s)) \<and> mediaRecorder (snd (cancel s)) = None \<and>
      \<not> mediaStream (snd (cancel s)) \<and> \<not> recordTranscribeActive (snd (cancel s)) \<and>
      (webSocket s \<longrightarrow> WsClose \<in> set (effects (snd (cancel s)))) \<and>
      (mediaRecorder s \<noteq> None \<longrightarrow> TerminateWorker \<in> set (effects (snd (cancel s)))) \<and>
      (mediaRecorder s = Some recording \<longrightarrow> RecorderStop \<in> set (effects (snd (cancel s)))) \<and>
      (mediaStream s \<longrightarrow> TracksStop \<in> set (effects (snd (cancel s))))"
    if "\<not> isInactiveState (state s)"
    using that by (simp add: cancel_def closeResources_fields closeResources_released)
  have idle: "cancel s = (Returned, s)" if "isInactiveState (state s)"
    using that by (simp add: cancel_def)
  have after: "isInactiveState (state (snd (cancel s)))"
    by (simp add: cancel_def closeResources_fields isInactiveState_def)
  then have twice: "cancel (snd (cancel s)) = (Returned, snd (cancel s))"
    by (simp add: cancel_def)
  have quiet: "callbacks (effects (snd (cancel s))) = callbacks (effects s)"
    by (simp add: cancel_def callbacks_def closeResources_callbacks)
  from active idle twice quiet show ?thesis by simp
qed

theorem cancel_idempotent_witness:
  "\<not> isInactiveState (state running_session) \<and> webSocket running_session \<and>
   mediaRecorder running_session = Some recording \<and> mediaStream running_session \<and>
   state (snd (cancel running_session)) = Canceled \<and>
   WsClose \<in> set (effects (snd (cancel running_session))) \<and>
   RecorderStop \<in> set (effects (snd (cancel running_session))) \<and>
   TerminateWorker \<in> set (effects (snd (cancel running_session))) \<and>
   TracksStop \<in> set (effects (snd (cancel running_session))) \<and>
   isInactiveState (state init_session) \<and> cancel init_session = (Returned, init_session) \<and>
   cancel (snd (cancel running_session)) = (Returned, snd (cancel running_session))"
proof -
  have h: "\<not> isInactiveState (state running_session)" "webSocket running_session"
    "mediaRecorder running_session = Some recording" "mediaStream running_session"
    by (simp_all add: running_session_eq isInactiveState_def)
  have i: "isInactiveState (state init_session)"
    by (simp add: init_session_eq isInactiveState_def)
  from cancel_idempotent [of running_session] cancel_idempotent [of init_session] h i
  show ?thesis by simp
qed

text \<open>
  Claim C7 as stated fails: \<open>Init\<close> is not a terminal state, and \<open>cancel()\<close> on a new
  session leaves it in \<open>Init\<close>.
\<close>

theorem cancel_Init_counterexample:
  "\<not> isTerminalState (state constructor) \<and> state (snd (cancel constructor)) = Init \<and>
   state (snd (cancel constructor)) \<noteq> Canceled"
  by (simp add: cancel_def constructor_def isInactiveState_def isTerminalState_def)

text \<open>
  Claim C10, as amended.  \<open>cancel()\<close> returns and calls no callback, in any state; from an
  active state \<open>getState()\<close> then returns \<open>Canceled\<close>; from \<open>Init\<close> and the terminal
  states \<open>getState()\<close> returns what it returned before.
\<close>

theorem cancel_silent:
  "fst (cancel s) = Returned \<and>
   callbacks (effects (snd (cancel s))) = callbacks (effects s) \<and>
   (\<not> isInactiveState (state s) \<longrightarrow> getState (snd (cancel s)) = ''Canceled'') \<and>
   (isInactiveState (state s) \<longrightarrow> getState (snd (cancel s)) = getState s)"
  by (simp add: cancel_def callbacks_def closeResources_callbacks getState_def
        ToUserStateMap_def)

theorem cancel_silent_witness:
  "\<not> isInactiveState (state finishing_session) \<and>
   callbacks (effects (snd (cancel finishing_session))) = [] \<and>
   getState (snd (cancel finishing_session)) = ''Canceled'' \<and>
   isInactiveState (state finished_session) \<and>
   getState (snd (cancel finished_session)) = ''Finished''"
proof -
  have h: "\<not> isInactiveState (state finishing_session)"
    "callbacks (effects finishing_session) = []"
    by (simp_all add: finishing_session_eq isInactiveState_def callbacks_def)
  have i: "isInactiveState (state finished_session)" "getState finished_session = ''Finished''"
    by (simp_all add: finished_session_eq isInactiveState_def getState_def ToUserStateMap_def)
  from cancel_silent [of finishing_session] cancel_silent [of finished_session] h i
  show ?thesis by simp
qed

text \<open>
  Claim C10 as stated fails: after \<open>cancel()\<close> on a session in \<open>Init\<close>, which is not a
  terminal state, \<open>getState()\<close> returns \<open>Init\<close>.
\<close>

theorem cancel_getState_Init_counterexample:
  "\<not> isTerminalState (state init_session) \<and> getState (snd (cancel init_session)) = ''Init'' \<and>
   getState (snd (cancel init_session)) \<noteq> ''Canceled''"
  by (simp add: cancel_def init_session_eq isInactiveState_def isTerminalState_def getState_def
        ToUserStateMap_def)

text \<open>
  Claim C8.  \<open>stop()\<close> in \<open>RequestingMedia\<close> or \<open>OpeningWebSocket\<close> returns in state
  \<open>FinishingEarly\<close> with the deferred task scheduled last and no callback called.  The
  deferred task then sets \<open>Finished\<close> and calls \<open>onFinished\<close>; in any state other than
  \<open>FinishingEarly\<close> it does nothing; and no other event takes \<open>FinishingEarly\<close> to
  \<open>Finished\<close>.
\<close>

theorem stop_defers_finish:
  assumes "state s = RequestingMedia \<or> state s = OpeningWebSocket"
  shows "fst (stop s) = Returned \<and>
         state (snd (stop s)) = FinishingEarly \<and>
         callbacks (effects (snd (stop s))) = callbacks (effects s) \<and>
         last (effects (snd (stop s))) = Deferred \<and>
         state (snd (completeFinishingEarly (snd (stop s)))) = Finished \<and>
         callbacks (effects (snd (completeFinishingEarly (snd (stop s))))) =
           callbacks (effects s) @ (if onFinished s then [OnFinished] else []) \<and>
         (\<forall>t. state t \<noteq> FinishingEarly \<longrightarrow> completeFinishingEarly t = (Returned, t)) \<and>
         (\<forall>t ev. state t = FinishingEarly \<and> state (snd (step ev t)) = Finished \<longrightarrow>
            ev = CompleteFinishingEarly)"
proof -
  let ?s' = "(logEffects [Deferred] (closeResources s))\<lparr>state := FinishingEarly\<rparr>"
  from assms have stop: "stop s = (Returned, ?s')" by (auto simp add: stop_def)
  have st: "state ?s' = FinishingEarly" by simp
  have cb: "callbacks (effects ?s') = callbacks (effects s)"
    by (simp add: callbacks_def logEffects_def closeResources_callbacks)
  have la: "last (effects ?s') = Deferred" by (simp add: logEffects_def)
  have reg: "onFinished ?s' = onFinished s" by (simp add: logEffects_def closeResources_fields)
  have later: "completeFinishingEarly ?s' = (Returned, handleFinished ?s')"
    by (simp add: completeFinishingEarly_def)
  have fin: "state (handleFinished ?s') = Finished" by (simp add: handleFinished_fields)
  have cbf: "callbacks (effects (handleFinished ?s')) =
      callbacks (effects s) @ (if onFinished s then [OnFinished] else [])"
    using cb reg by (simp add: callbacks_def handleFinished_fields)
  have guard: "\<forall>t. state t \<noteq> FinishingEarly \<longrightarrow> completeFinishingEarly t = (Returned, t)"
    by (simp add: completeFinishingEarly_def)
  have only: "ev = CompleteFinishingEarly"
    if "state t = FinishingEarly" and "state (snd (step ev t)) = Finished" for t ev
    using that
    by (cases ev)
       (auto simp add: handler_defs isInactiveState_def isWebSocketState_def logEffects_def
          closeResources_fields split: if_splits)
  from stop st cb la later fin cbf guard only show ?thesis by auto
qed

theorem stop_defers_finish_witness:
  "(state requesting_session = RequestingMedia \<or> state requesting_session = OpeningWebSocket) \<and>
   onFinished requesting_session \<and> callbacks (effects requesting_session) = [] \<and>
   state (snd (stop requesting_session)) = FinishingEarly \<and>
   callbacks (effects (snd (stop requesting_session))) = [] \<and>
   state (snd (completeFinishingEarly (snd (stop requesting_session)))) = Finished \<and>
   callbacks (effects (snd (completeFinishingEarly (snd (stop requesting_session))))) =
     [OnFinished]"
proof -
  have h: "state requesting_session = RequestingMedia \<or> state requesting_session = OpeningWebSocket"
    by (simp add: requesting_session_eq)
  have r: "onFinished requesting_session" "callbacks (effects requesting_session) = []"
    by (simp_all add: requesting_session_eq callbacks_def)
  from stop_defers_finish [OF h] h r show ?thesis by simp
qed

text \<open>
  Claim C5.  In a terminal state no event, and so no sequence of events, changes the
  state, the accumulated result or the callbacks called; a session that has reached a
  terminal state stays in it; and over any sequence of events from \<open>constructor\<close> at most
  one terminal callback (\<open>onFinished\<close> or \<open>onError\<close>) is called.  (\<open>getResult()\<close> hands out
  the result object itself; what its holder writes into it is no event of the session.)
\<close>

theorem terminal_state_is_final:
  "(isTerminalState (state s) \<longrightarrow>
      state (snd (step ev s)) = state s \<and> result (snd (step ev s)) = result s \<and>
      callbacks (effects (snd (step ev s))) = callbacks (effects s)) \<and>
   (isTerminalState (state s) \<longrightarrow>
      state (run evs s) = state s \<and> result (run evs s) = result s \<and>
      callbacks (effects (run evs s)) = callbacks (effects s)) \<and>
   (isTerminalState (state (run evs1 constructor)) \<longrightarrow>
      state (run (evs1 @ evs2) constructor) = state (run evs1 constructor) \<and>
      result (run (evs1 @ evs2) constructor) = result (run evs1 constructor)) \<and>
   length (filter isTerminalCallback (effects (run evs constructor))) \<le> 1"
proof -
  have one: "state (snd (step ev s)) = state s \<and> result (snd (step ev s)) = result s \<and>
      callbacks (effects (snd (step ev s))) = callbacks (effects s)"
    if "isTerminalState (state s)"
    using step_terminal_fields [OF that, of ev] by (simp add: callbacks_def)
  have many: "state (run evs s) = state s \<and> result (run evs s) = result s \<and>
      callbacks (effects (run evs s)) = callbacks (effects s)"
    if "isTerminalState (state s)"
    using run_terminal [OF that, of evs] by (simp add: callbacks_def)
  have once: "state (run (evs1 @ evs2) constructor) = state (run evs1 constructor) \<and>
      result (run (evs1 @ evs2) constructor) = result (run evs1 constructor)"
    if "isTerminalState (state (run evs1 constructor))"
    using run_terminal [OF that, of evs2] by (simp add: run_append)
  have count: "length (filter isTerminalCallback (effects (run evs constructor))) \<le> 1"
    by (rule tinv_count [OF tinv_run [OF tinv_constructor]])
  from one many once count show ?thesis by blast
qed

theorem terminal_state_is_final_witness:
  "isTerminalState (state (run [SetOnFinished True, SetOnError True, Start, GetUserMediaSuccess,
      WebSocketOpen, Stop, WebSocketClose 1000 ''<eof>''] constructor)) \<and>
   state (run ([SetOnFinished True, SetOnError True, Start, GetUserMediaSuccess,
      WebSocketOpen, Stop, WebSocketClose 1000 ''<eof>''] @ [Cancel, WebSocketError]) constructor) =
     Finished \<and>
   isTerminalState (state finished_session) \<and>
   state (run [Stop, Cancel, WebSocketError, WebSocketClose 1006 ''gone'', GetUserMediaSuccess,
               CompleteFinishingEarly, WebSocketMessage Unparsable, WebSocketMessage Malformed, Start] finished_session) = Finished \<and>
   result (run [Stop, Cancel, WebSocketError, WebSocketClose 1006 ''gone'', GetUserMediaSuccess,
               CompleteFinishingEarly, WebSocketMessage Unparsable, WebSocketMessage Malformed, Start] finished_session) =
     result finished_session \<and>
   callbacks (effects (run [Stop, Cancel, WebSocketError, WebSocketClose 1006 ''gone'',
               GetUserMediaSuccess, CompleteFinishingEarly, WebSocketMessage Unparsable, WebSocketMessage Malformed, Start]
               finished_session)) = [OnFinished]"
proof -
  have t: "isTerminalState (state finished_session)"
    by (simp add: finished_session_eq isTerminalState_def)
  have f: "state finished_session = Finished" "callbacks (effects finished_session) = [OnFinished]"
    by (simp_all add: finished_session_eq callbacks_def)
  have r: "run [SetOnFinished True, SetOnError True, Start, GetUserMediaSuccess,
      WebSocketOpen, Stop, WebSocketClose 1000 ''<eof>''] constructor = finished_session"
    by (simp add: finished_session_def finishing_session_def running_session_def
          requesting_session_def init_session_def)
  from terminal_state_is_final [of finished_session _
      "[Stop, Cancel, WebSocketError, WebSocketClose 1006 ''gone'', GetUserMediaSuccess,
        CompleteFinishingEarly, WebSocketMessage Unparsable, WebSocketMessage Malformed, Start]"
      "[SetOnFinished True, SetOnError True, Start, GetUserMediaSuccess,
        WebSocketOpen, Stop, WebSocketClose 1000 ''<eof>'']" "[Cancel, WebSocketError]"] t f
  show ?thesis unfolding r by simp
qed

end
